theory Spec2Isabelle
  imports Complex_Main "HOL-Library.Sublist" "HOL-Library.AList"
begin

section \<open>Strings\<close>

text \<open>
  A JavaScript string is a sequence of UTF-16 code units. The strings of the model are
  those whose code units are below 256 (ASCII and Latin-1): a \<^typ>\<open>char\<close> is such a code
  unit, and a string with a code unit from 256 on is not a value of the type. On these
  strings the functions below are the platform's. \<open>toLowerCase\<close> adds 32 to the
  letters \<open>A\<close>..\<open>Z\<close> (65..90) and to the Latin-1 capitals 192..222 other than the
  multiplication sign 215, and leaves every other code unit as it is. \<open>trim\<close> strips
  from both ends the white space and the line terminators below 256: tab, line feed,
  vertical tab, form feed, carriage return, space, and the no-break space 160.
\<close>

definition toLowerChar :: "char \<Rightarrow> char" where
  "toLowerChar c =
     (let n = (of_char c :: nat)
      in if (65 \<le> n \<and> n \<le> 90) \<or> (192 \<le> n \<and> n \<le> 222 \<and> n \<noteq> 215)
         then char_of (n + 32) else c)"

definition toLowerCase :: "string \<Rightarrow> string" where
  "toLowerCase s = map toLowerChar s"

definition isWhiteSpace :: "char \<Rightarrow> bool" where
  "isWhiteSpace c = ((of_char c :: nat) \<in> {9, 10, 11, 12, 13, 32, 160})"

definition trim :: "string \<Rightarrow> string" where
  "trim s = rev (dropWhile isWhiteSpace (rev (dropWhile isWhiteSpace s)))"

text \<open>\<open>a.includes(b)\<close>: \<open>b\<close> occurs in \<open>a\<close> as a contiguous run.\<close>

definition includes_str :: "string \<Rightarrow> string \<Rightarrow> bool" where
  "includes_str a b = sublist b a"

text \<open>\<open>a.endsWith(b)\<close> and \<open>a.startsWith(b)\<close>.\<close>

definition endsWith :: "string \<Rightarrow> string \<Rightarrow> bool" where
  "endsWith a b = suffix b a"

definition startsWith :: "string \<Rightarrow> string \<Rightarrow> bool" where
  "startsWith a b = prefix b a"

section \<open>Data model of the background service worker\<close>

datatype js_error = TypeError

record site =
  domain :: string
  enabled :: bool
  name :: string

record settings =
  settings_enabled :: bool
  unlockPhrase :: string
  blockedSites :: "site list"

record timer =
  unlockedUntil :: int
  unlockedAt :: int

text \<open>
  The object \<open>unlockTimers\<close> is keyed by domain. It is an association list of its own
  properties: \<open>AList.update\<close> overwrites a key in place or appends a new one, as assignment
  to a property does (the key \<open>__proto__\<close> apart, see \<open>unlockSite\<close>), \<open>AList.delete\<close> is
  \<open>delete\<close>, and \<open>map_of\<close> reads a property. The time stamps are integers, see the
  paragraph on numbers below.
\<close>

type_synonym timers = "(string \<times> timer) list"

record tab =
  tabId :: nat
  tabUrl :: "string option"

datatype action = ShowBlockOverlay | HideBlockOverlay

record message =
  msg_tab :: nat
  msg_action :: action
  msg_domain :: string
  msg_remainingTime :: int

text \<open>
  The world the service worker acts on: the two keys of \<open>chrome.storage.local\<close> (absent
  until first written), the alarms created so far, by name, each with its time \<open>when\<close>,
  the open tabs, the messages handed to \<open>chrome.tabs.sendMessage\<close>, and a log of the
  storage keys read so far.
\<close>

record world =
  stored_settings :: "settings option"
  stored_unlockTimers :: "timers option"
  alarms :: "(string \<times> int) list"
  tabs :: "tab list"
  sent :: "message list"
  reads :: "string list"

text \<open>\<open>const { settings } = await chrome.storage.local.get('settings')\<close>\<close>

definition storage_get_settings :: "world \<Rightarrow> settings option \<times> world" where
  "storage_get_settings w = (stored_settings w, w\<lparr>reads := reads w @ [''settings'']\<rparr>)"

text \<open>\<open>const { unlockTimers = {} } = await chrome.storage.local.get('unlockTimers')\<close>\<close>

definition ledger :: "world \<Rightarrow> timers" where
  "ledger w = (case stored_unlockTimers w of None \<Rightarrow> [] | Some ts \<Rightarrow> ts)"

definition storage_get_unlockTimers :: "world \<Rightarrow> timers \<times> world" where
  "storage_get_unlockTimers w = (ledger w, w\<lparr>reads := reads w @ [''unlockTimers'']\<rparr>)"

text \<open>\<open>await chrome.storage.local.set({ unlockTimers })\<close>\<close>

definition storage_set_unlockTimers :: "timers \<Rightarrow> world \<Rightarrow> world" where
  "storage_set_unlockTimers ts w = w\<lparr>stored_unlockTimers := Some ts\<rparr>"

text \<open>
  \<open>chrome.alarms.create(name, { when })\<close>: an alarm of the same name is replaced.
\<close>

definition alarms_create :: "string \<Rightarrow> int \<Rightarrow> world \<Rightarrow> world" where
  "alarms_create nm t w = w\<lparr>alarms := AList.update nm t (alarms w)\<rparr>"

section \<open>Blocking logic\<close>

text \<open>
  \<open>getBlockedDomain(url, blockedSites)\<close>. The platform's \<open>new URL(url).hostname\<close> is the
  parameter \<open>URL_hostname\<close>: \<open>Inl TypeError\<close> where the constructor throws. The \<open>catch\<close>
  swallows the exception and the function returns \<open>null\<close> (\<open>None\<close>).
\<close>

fun match_loop :: "string \<Rightarrow> site list \<Rightarrow> string option" where
  "match_loop hostname [] = None"
| "match_loop hostname (s # rest) =
     (if \<not> enabled s then match_loop hostname rest
      else if hostname = domain s \<or> endsWith hostname (''.'' @ domain s) then Some (domain s)
      else match_loop hostname rest)"

definition getBlockedDomain ::
  "(string \<Rightarrow> js_error + string) \<Rightarrow> string \<Rightarrow> site list \<Rightarrow> string option" where
  "getBlockedDomain URL_hostname url sites =
     (case URL_hostname url of
        Inl e \<Rightarrow> None
      | Inr h \<Rightarrow> match_loop (toLowerCase h) sites)"

text \<open>
  \<open>Math.ceil(x / 1000)\<close> on an integer number of milliseconds.
\<close>

definition ceil_div :: "int \<Rightarrow> int \<Rightarrow> int" where
  "ceil_div x k = - ((- x) div k)"

record unlock_status =
  unlocked :: bool
  remainingTime :: int

text \<open>
  \<open>isDomainUnlocked(domain)\<close>. The two \<open>Date.now()\<close> reads are the parameters \<open>now1\<close> (the
  comparison) and \<open>now2\<close> (the remaining time).
\<close>

definition isDomainUnlocked :: "string \<Rightarrow> int \<Rightarrow> int \<Rightarrow> world \<Rightarrow> unlock_status \<times> world" where
  "isDomainUnlocked d now1 now2 w =
     (let (unlockTimers, w1) = storage_get_unlockTimers w in
      case map_of unlockTimers d of
        None \<Rightarrow> (\<lparr>unlocked = False, remainingTime = 0\<rparr>, w1)
      | Some t \<Rightarrow>
          if unlockedUntil t > now1
          then (\<lparr>unlocked = True, remainingTime = ceil_div (unlockedUntil t - now2) 1000\<rparr>, w1)
          else (\<lparr>unlocked = False, remainingTime = 0\<rparr>, w1))"

record block_status =
  shouldBlock :: bool
  block_domain :: "string option"
  block_remainingTime :: "int option"

definition not_blocked :: block_status where
  "not_blocked = \<lparr>shouldBlock = False, block_domain = None, block_remainingTime = None\<rparr>"

text \<open>
  \<open>shouldBlockTab(url)\<close>. \<open>!blockedDomain\<close> holds for \<open>null\<close> and for the empty string.
\<close>

definition shouldBlockTab ::
  "(string \<Rightarrow> js_error + string) \<Rightarrow> string \<Rightarrow> int \<Rightarrow> int \<Rightarrow> world \<Rightarrow> block_status \<times> world" where
  "shouldBlockTab URL_hostname url now1 now2 w =
     (let (st, w1) = storage_get_settings w in
      case st of
        None \<Rightarrow> (not_blocked, w1)
      | Some s \<Rightarrow>
          if \<not> settings_enabled s then (not_blocked, w1)
          else
            (case getBlockedDomain URL_hostname url (blockedSites s) of
               None \<Rightarrow> (not_blocked, w1)
             | Some blockedDomain \<Rightarrow>
                 if blockedDomain = [] then (not_blocked, w1)
                 else
                   (let (unlockStatus, w2) = isDomainUnlocked blockedDomain now1 now2 w1 in
                    (\<lparr>shouldBlock = \<not> unlocked unlockStatus,
                      block_domain = Some blockedDomain,
                      block_remainingTime = Some (remainingTime unlockStatus)\<rparr>, w2))))"

section \<open>Tab notification, grant, eviction and sweep\<close>

text \<open>
  \<open>notifyTabsForDomain(domain, action, remainingTime)\<close>. A tab counts when \<open>tab.url\<close> is
  truthy (present and not empty). Reading \<open>settings.blockedSites\<close> of absent settings
  throws a \<open>TypeError\<close> that nothing catches: the loop stops and the caller rejects. A
  failing \<open>sendMessage\<close> is caught and ignored, so \<open>sent\<close> records the attempts.
\<close>

fun notify_loop ::
  "(string \<Rightarrow> js_error + string) \<Rightarrow> tab list \<Rightarrow> string \<Rightarrow> action \<Rightarrow> int \<Rightarrow> world
     \<Rightarrow> js_error option \<times> world" where
  "notify_loop URL_hostname [] d a r w = (None, w)"
| "notify_loop URL_hostname (t # rest) d a r w =
     (case tabUrl t of
        None \<Rightarrow> notify_loop URL_hostname rest d a r w
      | Some u \<Rightarrow>
          if u = [] then notify_loop URL_hostname rest d a r w
          else
            (let (st, w1) = storage_get_settings w in
             case st of
               None \<Rightarrow> (Some TypeError, w1)
             | Some s \<Rightarrow>
                 if getBlockedDomain URL_hostname u (blockedSites s) = Some d
                 then notify_loop URL_hostname rest d a r
                        (w1\<lparr>sent := sent w1 @
                           [\<lparr>msg_tab = tabId t, msg_action = a, msg_domain = d,
                             msg_remainingTime = r\<rparr>]\<rparr>)
                 else notify_loop URL_hostname rest d a r w1))"

definition notifyTabsForDomain ::
  "(string \<Rightarrow> js_error + string) \<Rightarrow> string \<Rightarrow> action \<Rightarrow> int \<Rightarrow> world \<Rightarrow> js_error option \<times> world" where
  "notifyTabsForDomain URL_hostname d a r w = notify_loop URL_hostname (tabs w) d a r w"

record unlock_result =
  success :: bool
  result_unlockedUntil :: int
  result_duration :: int

text \<open>
  Numbers. Clock readings, durations and time stamps are integers here. The code computes
  them as doubles, which add, subtract and multiply integers without rounding as long as
  the operands and the result do not exceed \<open>Number.MAX_SAFE_INTEGER\<close> in magnitude; and
  for an integer \<open>x\<close> in that range \<open>Math.ceil(x / 1000)\<close> is the ceiling of the exact
  quotient (the rounded quotient is off by less than a thousandth). The properties of
  grants are stated for values in that range.
\<close>

definition MAX_SAFE_INTEGER :: int where
  "MAX_SAFE_INTEGER = 9007199254740991"

text \<open>A clock reading: milliseconds since the epoch, a safe integer.\<close>

definition safe_clock :: "int \<Rightarrow> bool" where
  "safe_clock t \<longleftrightarrow> 0 \<le> t \<and> t \<le> MAX_SAFE_INTEGER"

text \<open>
  A grant of \<open>s\<close> seconds at clock \<open>now\<close> whose arithmetic is exact: the product
  \<open>s * 1000\<close> and the sum \<open>now + s * 1000\<close> are safe integers.
\<close>

definition safe_grant :: "int \<Rightarrow> int \<Rightarrow> bool" where
  "safe_grant now s \<longleftrightarrow> 0 \<le> now \<and> 0 \<le> s \<and> now + s * 1000 \<le> MAX_SAFE_INTEGER"

text \<open>
  \<open>unlockSite(domain, durationSeconds)\<close>. The handler awaits the read of the stored
  timers; what follows the read is \<open>unlockSite_write\<close>, which works on the copy
  \<open>unlockTimers\<close> it was handed and may run after other handlers have written. Its three
  \<open>Date.now()\<close> reads are \<open>now1\<close> (for \<open>unlockedUntil\<close>), \<open>now2\<close> (for \<open>unlockedAt\<close>) and
  \<open>now3\<close> (for the alarm, after the store has been awaited). The assignment
  \<open>unlockTimers[domain] = {...}\<close> stores the entry under the key, except for the key
  \<open>__proto__\<close> on an object that has no own property of that name (as every object that
  this program stores): there the assignment sets the prototype of the object, no
  property is added, and what is stored is the copy as it was read. The value returned
  reads \<open>unlockTimers[domain].unlockedUntil\<close>, which is the time stamp of the entry in both
  cases. The result is \<open>Inl\<close> when the notification rejects; the world is returned either
  way, since the entry and the alarm are written before.
\<close>

definition unlockSite_write ::
  "(string \<Rightarrow> js_error + string) \<Rightarrow> string \<Rightarrow> int \<Rightarrow> int \<Rightarrow> int \<Rightarrow> int \<Rightarrow> timers \<Rightarrow> world
     \<Rightarrow> (js_error + unlock_result) \<times> world" where
  "unlockSite_write URL_hostname d durationSeconds now1 now2 now3 unlockTimers w1 =
     (let entry = \<lparr>unlockedUntil = now1 + durationSeconds * 1000, unlockedAt = now2\<rparr>;
          unlockTimers' =
            (if d = ''__proto__'' \<and> map_of unlockTimers d = None then unlockTimers
             else AList.update d entry unlockTimers);
          w2 = storage_set_unlockTimers unlockTimers' w1;
          w3 = alarms_create (''reblock_'' @ d) (now3 + durationSeconds * 1000) w2;
          (err, w4) = notifyTabsForDomain URL_hostname d HideBlockOverlay durationSeconds w3
      in case err of
           Some e \<Rightarrow> (Inl e, w4)
         | None \<Rightarrow>
             (Inr \<lparr>success = True, result_unlockedUntil = unlockedUntil entry,
                   result_duration = durationSeconds\<rparr>, w4))"

definition unlockSite ::
  "(string \<Rightarrow> js_error + string) \<Rightarrow> string \<Rightarrow> int \<Rightarrow> int \<Rightarrow> int \<Rightarrow> int \<Rightarrow> world
     \<Rightarrow> (js_error + unlock_result) \<times> world" where
  "unlockSite URL_hostname d durationSeconds now1 now2 now3 w =
     (let (unlockTimers, w1) = storage_get_unlockTimers w
      in unlockSite_write URL_hostname d durationSeconds now1 now2 now3 unlockTimers w1)"

text \<open>
  The \<open>chrome.alarms.onAlarm\<close> listener. The name starts with \<open>reblock_\<close>, so
  \<open>alarm.name.replace('reblock_', '')\<close> drops these eight characters. The listener
  awaits the read of the stored timers, then deletes the key from its copy and stores the
  copy (\<open>onAlarm_set\<close>), then notifies the tabs.
\<close>

definition onAlarm_set :: "string \<Rightarrow> timers \<Rightarrow> world \<Rightarrow> world" where
  "onAlarm_set d unlockTimers w = storage_set_unlockTimers (AList.delete d unlockTimers) w"

definition onAlarm ::
  "(string \<Rightarrow> js_error + string) \<Rightarrow> string \<Rightarrow> world \<Rightarrow> js_error option \<times> world" where
  "onAlarm URL_hostname alarmName w =
     (if startsWith alarmName ''reblock_'' then
        (let d = drop (length ''reblock_'') alarmName;
             (unlockTimers, w1) = storage_get_unlockTimers w;
             w2 = onAlarm_set d unlockTimers w1
         in notifyTabsForDomain URL_hostname d ShowBlockOverlay 0 w2)
      else (None, w))"


text \<open>
  \<open>cleanupExpiredTimers()\<close>: it awaits the read of the stored timers; what follows the
  read is \<open>cleanup_write\<close>, on the copy it was handed. The \<open>for ... in\<close> loop visits the
  entries the copy had when the loop began and deletes from the copy as it goes; the copy
  is stored only when something was deleted.
\<close>

fun cleanup_loop :: "int \<Rightarrow> timers \<Rightarrow> timers \<times> bool \<Rightarrow> timers \<times> bool" where
  "cleanup_loop now [] acc = acc"
| "cleanup_loop now ((d, t) # rest) (unlockTimers, hasChanges) =
     (if unlockedUntil t \<le> now
      then cleanup_loop now rest (AList.delete d unlockTimers, True)
      else cleanup_loop now rest (unlockTimers, hasChanges))"

definition cleanup_write :: "int \<Rightarrow> timers \<Rightarrow> world \<Rightarrow> world" where
  "cleanup_write now unlockTimers w =
     (let (unlockTimers', hasChanges) = cleanup_loop now unlockTimers (unlockTimers, False)
      in if hasChanges then storage_set_unlockTimers unlockTimers' w else w)"

definition cleanupExpiredTimers :: "int \<Rightarrow> world \<Rightarrow> world" where
  "cleanupExpiredTimers now w =
     (let (unlockTimers, w1) = storage_get_unlockTimers w
      in cleanup_write now unlockTimers w1)"

text \<open>
  The alarm listener racing the sweep. Each handler runs up to its next \<open>await\<close> in one
  piece, so the steps that can interleave are the listener's read, its store and its
  notification, and the sweep's read and its store. A race state holds the world, the copy
  each handler has read so far, and the error of the notification if it threw.
  \<open>race_schedules\<close> are the ten ways to interleave the two handlers.
\<close>

datatype race_step = AlarmGet | AlarmSet | AlarmNotify | SweepGet | SweepSet

record race_state =
  race_world :: world
  alarm_copy :: "timers option"
  sweep_copy :: "timers option"
  race_error :: "js_error option"

definition race_do ::
  "(string \<Rightarrow> js_error + string) \<Rightarrow> string \<Rightarrow> int \<Rightarrow> race_step \<Rightarrow> race_state \<Rightarrow> race_state" where
  "race_do URL_hostname d now st s =
     (case st of
        AlarmGet \<Rightarrow>
          (let (ts, w1) = storage_get_unlockTimers (race_world s)
           in s\<lparr>race_world := w1, alarm_copy := Some ts\<rparr>)
      | AlarmSet \<Rightarrow>
          (case alarm_copy s of
             None \<Rightarrow> s
           | Some ts \<Rightarrow> s\<lparr>race_world := onAlarm_set d ts (race_world s)\<rparr>)
      | AlarmNotify \<Rightarrow>
          (let (e, w1) = notifyTabsForDomain URL_hostname d ShowBlockOverlay 0 (race_world s)
           in s\<lparr>race_world := w1, race_error := e\<rparr>)
      | SweepGet \<Rightarrow>
          (let (ts, w1) = storage_get_unlockTimers (race_world s)
           in s\<lparr>race_world := w1, sweep_copy := Some ts\<rparr>)
      | SweepSet \<Rightarrow>
          (case sweep_copy s of
             None \<Rightarrow> s
           | Some ts \<Rightarrow> s\<lparr>race_world := cleanup_write now ts (race_world s)\<rparr>))"

definition run_race ::
  "(string \<Rightarrow> js_error + string) \<Rightarrow> string \<Rightarrow> int \<Rightarrow> race_step list \<Rightarrow> world \<Rightarrow> race_state" where
  "run_race URL_hostname d now schedule w =
     fold (race_do URL_hostname d now) schedule
       \<lparr>race_world = w, alarm_copy = None, sweep_copy = None, race_error = None\<rparr>"



section \<open>Content script: volume and phrase\<close>

text \<open>
  The table of breakpoints and its lookup. A finite level is a real number here: the
  comparisons of the lookup are exact on finite doubles. The \<open>emoji\<close> field of the
  table is left out.
\<close>

record mapping =
  minDb :: real
  maxDb :: real
  duration :: int
  label :: string

definition VOLUME_DURATION_MAP :: "mapping list" where
  "VOLUME_DURATION_MAP =
     [\<lparr>minDb = -50, maxDb = -35, duration = 30, label = ''Whisper''\<rparr>,
      \<lparr>minDb = -35, maxDb = -25, duration = 60, label = ''Quiet''\<rparr>,
      \<lparr>minDb = -25, maxDb = -15, duration = 120, label = ''Normal''\<rparr>,
      \<lparr>minDb = -15, maxDb = -5, duration = 300, label = ''Loud''\<rparr>,
      \<lparr>minDb = -5, maxDb = 0, duration = 600, label = ''SHOUTING!''\<rparr>]"

fun mapping_loop :: "real \<Rightarrow> mapping list \<Rightarrow> mapping option" where
  "mapping_loop db [] = None"
| "mapping_loop db (m # rest) =
     (if db \<ge> minDb m \<and> db < maxDb m then Some m else mapping_loop db rest)"

definition getVolumeDurationMapping :: "real \<Rightarrow> mapping" where
  "getVolumeDurationMapping db =
     (case mapping_loop db VOLUME_DURATION_MAP of
        Some m \<Rightarrow> m
      | None \<Rightarrow> VOLUME_DURATION_MAP ! 0)"

text \<open>\<open>xs.slice(a, b)\<close> for \<open>0 \<le> a\<close> and \<open>0 \<le> b\<close>.\<close>

definition slice :: "nat \<Rightarrow> nat \<Rightarrow> 'a list \<Rightarrow> 'a list" where
  "slice a b xs = take (b - a) (drop a xs)"

text \<open>
  \<open>calculateAverageVolume()\<close> on the buffer \<open>volumeSamples\<close>. The samples are the
  platform's doubles: the levels \<open>monitorVolume\<close> pushes, from \<open>-Infinity\<close> (a silent
  frame) up to 0, which the comparator \<open>(a, b) => a - b\<close> orders as numbers (for two
  silent frames it returns \<open>NaN\<close>, which the sort takes for equal). Their type is a
  parameter \<open>'a\<close> with that order, and so are the double operations the function uses:
  \<open>fadd\<close> is the addition, \<open>fdiv x k\<close> the division of \<open>x\<close> by the count \<open>k\<close>, \<open>fzero\<close>
  the double 0 and \<open>fminus60\<close> the double -60. \<open>Math.floor(n * 0.1)\<close> and
  \<open>Math.floor(n * 0.9)\<close> are \<open>n div 10\<close> and \<open>9 * n div 10\<close>: the doubles \<open>0.1\<close> and \<open>0.9\<close> lie
  just above a tenth and nine tenths, too little to reach the next integer for any
  buffer length below \<open>10\<^sup>1\<^sup>5\<close>.
\<close>

definition calculateAverageVolume ::
  "('a \<Rightarrow> 'a \<Rightarrow> 'a) \<Rightarrow> ('a \<Rightarrow> nat \<Rightarrow> 'a) \<Rightarrow> 'a \<Rightarrow> 'a \<Rightarrow> ('a :: linorder) list \<Rightarrow> 'a" where
  "calculateAverageVolume fadd fdiv fzero fminus60 volumeSamples =
     (if length volumeSamples = 0 then fminus60
      else
        (let sorted_samples = sort volumeSamples;
             n = length sorted_samples;
             trimmed = slice (n div 10) (9 * n div 10) sorted_samples
         in if length trimmed = 0 then sorted_samples ! (n div 2)
            else fdiv (foldl fadd fzero trimmed) (length trimmed)))"

text \<open>
  The levels of the buffer. \<open>monitorVolume\<close> pushes \<open>20 * Math.log10(rms / 255)\<close> with
  \<open>0 \<le> rms \<le> 255\<close>: \<open>-Infinity\<close> for a silent frame, a finite double up to 0 otherwise.
  Sums of such levels and their quotients by a count are levels again.
\<close>

datatype level = NegInfinity | Finite real

instantiation level :: linorder
begin

fun less_eq_level :: "level \<Rightarrow> level \<Rightarrow> bool" where
  "less_eq_level NegInfinity y = True"
| "less_eq_level (Finite x) NegInfinity = False"
| "less_eq_level (Finite x) (Finite y) = (x \<le> y)"

definition less_level :: "level \<Rightarrow> level \<Rightarrow> bool" where
  "less_level a b \<longleftrightarrow> a \<le> b \<and> \<not> b \<le> a"

instance
proof
  fix x y z :: level
  show "(x < y) = (x \<le> y \<and> \<not> y \<le> x)" by (simp add: less_level_def)
  show "x \<le> x" by (cases x) simp_all
  show "x \<le> y \<Longrightarrow> y \<le> z \<Longrightarrow> x \<le> z" by (cases x; cases y; cases z) simp_all
  show "x \<le> y \<Longrightarrow> y \<le> x \<Longrightarrow> x = y" by (cases x; cases y) simp_all
  show "x \<le> y \<or> y \<le> x" by (cases x; cases y) auto
qed

end

text \<open>
  \<open>getVolumeDurationMapping\<close> on a level: \<open>-Infinity\<close> fails the comparison
  \<open>db >= mapping.minDb\<close> of every row, so the loop falls through to the default.
\<close>

definition level_mapping :: "level \<Rightarrow> mapping" where
  "level_mapping l =
     (case l of NegInfinity \<Rightarrow> VOLUME_DURATION_MAP ! 0 | Finite db \<Rightarrow> getVolumeDurationMapping db)"

text \<open>\<open>levenshteinDistance(str1, str2)\<close>: the table \<open>dp\<close> and its three loops.\<close>

definition set_cell :: "nat list list \<Rightarrow> nat \<Rightarrow> nat \<Rightarrow> nat \<Rightarrow> nat list list" where
  "set_cell dp i j v = dp[i := (dp ! i)[j := v]]"

definition lev_cell :: "string \<Rightarrow> string \<Rightarrow> nat \<Rightarrow> nat \<Rightarrow> nat list list \<Rightarrow> nat list list" where
  "lev_cell str1 str2 i j dp =
     (if str1 ! (i - 1) = str2 ! (j - 1) then set_cell dp i j (dp ! (i - 1) ! (j - 1))
      else set_cell dp i j
             (1 + min (min (dp ! (i - 1) ! j) (dp ! i ! (j - 1))) (dp ! (i - 1) ! (j - 1))))"

definition levenshteinDistance :: "string \<Rightarrow> string \<Rightarrow> nat" where
  "levenshteinDistance str1 str2 =
     (let m = length str1;
          n = length str2;
          dp0 = replicate (m + 1) (replicate (n + 1) 0);
          dp1 = fold (\<lambda>i dp. set_cell dp i 0 i) [0..<m + 1] dp0;
          dp2 = fold (\<lambda>j dp. set_cell dp 0 j j) [0..<n + 1] dp1;
          dp3 = fold (\<lambda>i dp. fold (\<lambda>j dp. lev_cell str1 str2 i j dp) [1..<n + 1] dp)
                  [1..<m + 1] dp2
      in dp3 ! m ! n)"

definition UNLOCK_PHRASE :: string where
  "UNLOCK_PHRASE = ''i'm a loser''"

text \<open>
  \<open>validatePhrase(transcript)\<close> with the buffer \<open>volumeSamples\<close>: \<open>Some\<close> of the duration it
  asks \<open>unlockSite\<close> for when the phrase matches, \<open>None\<close> when it shows "Wrong phrase".
  The phrase is the constant \<open>UNLOCK_PHRASE\<close> of the content script; the function does
  not read the phrase stored in the settings (\<open>unlockPhrase\<close>, which the popup edits).
  \<open>fadd\<close> and \<open>fdiv\<close> are the double addition and division on levels.
\<close>

definition validatePhrase ::
  "(level \<Rightarrow> level \<Rightarrow> level) \<Rightarrow> (level \<Rightarrow> nat \<Rightarrow> level) \<Rightarrow> string \<Rightarrow> level list
     \<Rightarrow> int option" where
  "validatePhrase fadd fdiv transcript volumeSamples =
     (let normalizedTranscript = trim (toLowerCase transcript);
          normalizedPhrase = trim (toLowerCase UNLOCK_PHRASE);
          isMatch = includes_str normalizedTranscript normalizedPhrase \<or>
                    levenshteinDistance normalizedTranscript normalizedPhrase \<le> 3
      in if isMatch
         then (let avgVolume =
                     calculateAverageVolume fadd fdiv (Finite 0) (Finite (-60)) volumeSamples;
                   m = level_mapping avgVolume
               in Some (duration m))
         else None)"

text \<open>
  The Levenshtein distance in the words of the specification: unit cost for an
  insertion, a deletion and a substitution.
\<close>

fun levenshtein_spec :: "'a list \<Rightarrow> 'a list \<Rightarrow> nat" where
  "levenshtein_spec [] ys = length ys"
| "levenshtein_spec xs [] = length xs"
| "levenshtein_spec (x # xs) (y # ys) =
     (if x = y then levenshtein_spec xs ys
      else 1 + min (min (levenshtein_spec xs (y # ys)) (levenshtein_spec (x # xs) ys))
                   (levenshtein_spec xs ys))"

text \<open>
  Edit scripts: \<open>edits xs ys n\<close> when \<open>ys\<close> is obtained from \<open>xs\<close> by \<open>n\<close> single-character
  deletions, insertions and substitutions, the other characters kept.
\<close>

inductive edits :: "'a list \<Rightarrow> 'a list \<Rightarrow> nat \<Rightarrow> bool" where
  edits_Nil: "edits [] [] 0"
| edits_delete: "edits xs ys n \<Longrightarrow> edits (x # xs) ys (Suc n)"
| edits_insert: "edits xs ys n \<Longrightarrow> edits xs (y # ys) (Suc n)"
| edits_keep: "edits xs ys n \<Longrightarrow> edits (x # xs) (x # ys) n"
| edits_substitute: "edits xs ys n \<Longrightarrow> edits (x # xs) (y # ys) (Suc n)"

section \<open>Notions the properties are stated with\<close>

text \<open>The global flag and the rule list as stored (absent settings: off, no rules).\<close>

definition globalEnabled :: "world \<Rightarrow> bool" where
  "globalEnabled w = (case stored_settings w of None \<Rightarrow> False | Some s \<Rightarrow> settings_enabled s)"

definition rules :: "world \<Rightarrow> site list" where
  "rules w = (case stored_settings w of None \<Rightarrow> [] | Some s \<Rightarrow> blockedSites s)"

text \<open>A live unlock entry: the ledger has an entry for the domain that expires after \<open>now\<close>.\<close>

definition live :: "string \<Rightarrow> int \<Rightarrow> world \<Rightarrow> bool" where
  "live d now w = (case map_of (ledger w) d of None \<Rightarrow> False | Some t \<Rightarrow> unlockedUntil t > now)"

text \<open>The keys of the entries that have expired at \<open>now\<close>.\<close>

definition expired_keys :: "int \<Rightarrow> timers \<Rightarrow> string set" where
  "expired_keys now ts = set (map fst (filter (\<lambda>e. unlockedUntil (snd e) \<le> now) ts))"

text \<open>
  The ledger invariant: one entry per domain, and each entry expires after it was granted.
\<close>

definition ledger_ok :: "timers \<Rightarrow> bool" where
  "ledger_ok ts \<longleftrightarrow>
     distinct (map fst ts) \<and> (\<forall>e \<in> set ts. unlockedAt (snd e) < unlockedUntil (snd e))"




text \<open>What the matcher tests of one rule, for a lowercased hostname.\<close>

definition site_matches :: "string \<Rightarrow> site \<Rightarrow> bool" where
  "site_matches hostname s \<longleftrightarrow>
     enabled s \<and> (hostname = domain s \<or> suffix (''.'' @ domain s) hostname)"

text \<open>
  The lock decision as invariant I1 words it: on, and some enabled rule matches the
  hostname and has no live entry.
\<close>

definition I1_blocked :: "(string \<Rightarrow> js_error + string) \<Rightarrow> string \<Rightarrow> int \<Rightarrow> world \<Rightarrow> bool" where
  "I1_blocked URL_hostname url now w \<longleftrightarrow>
     globalEnabled w \<and>
     (case URL_hostname url of
        Inl e \<Rightarrow> False
      | Inr h \<Rightarrow> \<exists>r \<in> set (rules w). site_matches (toLowerCase h) r \<and> \<not> live (domain r) now w)"

text \<open>
  Addition and division of levels without rounding. They are the double operations
  wherever the doubles do not round, as on the levels of the examples.
\<close>

fun exact_add :: "level \<Rightarrow> level \<Rightarrow> level" where
  "exact_add (Finite x) (Finite y) = Finite (x + y)"
| "exact_add a b = NegInfinity"

fun exact_div :: "level \<Rightarrow> nat \<Rightarrow> level" where
  "exact_div (Finite x) k = Finite (x / real k)"
| "exact_div NegInfinity k = NegInfinity"

text \<open>
  The trimmed mean in the words of the specification: sort, discard the lowest tenth and
  the highest tenth of the samples by count, both rounded down, average the rest.
\<close>

definition spec_trimmed_mean ::
  "('a \<Rightarrow> 'a \<Rightarrow> 'a) \<Rightarrow> ('a \<Rightarrow> nat \<Rightarrow> 'a) \<Rightarrow> 'a \<Rightarrow> ('a :: linorder) list \<Rightarrow> 'a" where
  "spec_trimmed_mean fadd fdiv fzero samples =
     (let sorted_samples = sort samples;
          n = length sorted_samples;
          k = n div 10;
          kept = take (n - 2 * k) (drop k sorted_samples)
      in fdiv (foldl fadd fzero kept) (length kept))"

text \<open>
  The table of \<open>levenshteinDistance\<close>: \<open>m + 1\<close> rows of \<open>n + 1\<close> cells, and what cell
  \<open>(i, j)\<close> has to hold, the distance between the first \<open>i\<close> characters of \<open>str1\<close> and the
  first \<open>j\<close> characters of \<open>str2\<close>.
\<close>

definition dp_shape :: "nat \<Rightarrow> nat \<Rightarrow> nat list list \<Rightarrow> bool" where
  "dp_shape m n dp \<longleftrightarrow> length dp = Suc m \<and> (\<forall>i \<le> m. length (dp ! i) = Suc n)"

definition prefix_distance :: "string \<Rightarrow> string \<Rightarrow> nat \<Rightarrow> nat \<Rightarrow> nat" where
  "prefix_distance str1 str2 i j = levenshtein_spec (take i str1) (take j str2)"

section \<open>Example data\<close>

text \<open>
  A stand-in for the URL parser on plain \<open>https\<close> URLs (no port, no user), for the examples:
  the hostname is what stands between \<open>https://\<close> and the next slash.
\<close>

definition example_hostname :: "string \<Rightarrow> js_error + string" where
  "example_hostname url =
     (if prefix ''https://'' url \<and> length url > 8
      then Inr (takeWhile (\<lambda>c. c \<noteq> CHR ''/'') (drop 8 url))
      else Inl TypeError)"

definition example_sites :: "site list" where
  "example_sites =
     [\<lparr>domain = ''youtube.com'', enabled = False, name = ''YouTube''\<rparr>,
      \<lparr>domain = ''example.com'', enabled = True, name = ''Example''\<rparr>,
      \<lparr>domain = ''sub.example.com'', enabled = True, name = ''Sub''\<rparr>]"

definition example_world :: world where
  "example_world =
     \<lparr>stored_settings =
        Some \<lparr>settings_enabled = True, unlockPhrase = UNLOCK_PHRASE, blockedSites = example_sites\<rparr>,
      stored_unlockTimers = Some [(''example.com'', \<lparr>unlockedUntil = 31000, unlockedAt = 1000\<rparr>)],
      alarms = [(''reblock_example.com'', 31000)],
      tabs = [\<lparr>tabId = 1, tabUrl = Some ''https://sub.example.com/x''\<rparr>,
              \<lparr>tabId = 2, tabUrl = None\<rparr>],
      sent = [],
      reads = []\<rparr>"

section \<open>The domain matcher\<close>

lemma match_loop_None: "match_loop h sites = None \<longleftrightarrow> (\<forall>s \<in> set sites. \<not> site_matches h s)"
  by (induction sites) (auto simp: site_matches_def endsWith_def)

lemma match_loop_Some:
  "match_loop h sites = Some d \<longleftrightarrow>
     (\<exists>i < length sites. site_matches h (sites ! i) \<and> (\<forall>j < i. \<not> site_matches h (sites ! j))
        \<and> d = domain (sites ! i))"
proof (induction sites)
  case Nil
  show ?case by simp
next
  case (Cons s rest)
  show ?case
  proof (cases "site_matches h s")
    case True
    then have "match_loop h (s # rest) = Some (domain s)"
      by (auto simp: site_matches_def endsWith_def)
    moreover have "(\<exists>i < length (s # rest). site_matches h ((s # rest) ! i)
        \<and> (\<forall>j < i. \<not> site_matches h ((s # rest) ! j)) \<and> d = domain ((s # rest) ! i))
      \<longleftrightarrow> d = domain s"
    proof
      assume "\<exists>i < length (s # rest). site_matches h ((s # rest) ! i)
        \<and> (\<forall>j < i. \<not> site_matches h ((s # rest) ! j)) \<and> d = domain ((s # rest) ! i)"
      then obtain i where i: "site_matches h ((s # rest) ! i)"
        "\<forall>j < i. \<not> site_matches h ((s # rest) ! j)" "d = domain ((s # rest) ! i)"
        by blast
      have "i = 0"
      proof (rule ccontr)
        assume "i \<noteq> 0"
        then have "\<not> site_matches h ((s # rest) ! 0)" using i(2) by blast
        then show False using True by simp
      qed
      then show "d = domain s" using i(3) by simp
    next
      assume "d = domain s"
      then show "\<exists>i < length (s # rest). site_matches h ((s # rest) ! i)
        \<and> (\<forall>j < i. \<not> site_matches h ((s # rest) ! j)) \<and> d = domain ((s # rest) ! i)"
        using True by (intro exI[of _ 0]) simp
    qed
    ultimately show ?thesis by auto
  next
    case False
    then have eq: "match_loop h (s # rest) = match_loop h rest"
      by (auto simp: site_matches_def endsWith_def)
    have "(\<exists>i < length (s # rest). site_matches h ((s # rest) ! i)
        \<and> (\<forall>j < i. \<not> site_matches h ((s # rest) ! j)) \<and> d = domain ((s # rest) ! i))
      \<longleftrightarrow> (\<exists>i < length rest. site_matches h (rest ! i)
        \<and> (\<forall>j < i. \<not> site_matches h (rest ! j)) \<and> d = domain (rest ! i))"
      (is "?L \<longleftrightarrow> ?R")
    proof
      assume ?L
      then obtain i where i: "i < length (s # rest)" "site_matches h ((s # rest) ! i)"
        "\<forall>j < i. \<not> site_matches h ((s # rest) ! j)" "d = domain ((s # rest) ! i)"
        by blast
      from i(2) False obtain k where k: "i = Suc k" by (cases i) auto
      have "\<forall>j < k. \<not> site_matches h (rest ! j)"
      proof (intro allI impI)
        fix j assume "j < k"
        then have "Suc j < i" using k by simp
        then have "\<not> site_matches h ((s # rest) ! Suc j)" using i(3) by blast
        then show "\<not> site_matches h (rest ! j)" by simp
      qed
      then show ?R using i k by (intro exI[of _ k]) simp
    next
      assume ?R
      then obtain k where k: "k < length rest" "site_matches h (rest ! k)"
        "\<forall>j < k. \<not> site_matches h (rest ! j)" "d = domain (rest ! k)"
        by blast
      have "\<forall>j < Suc k. \<not> site_matches h ((s # rest) ! j)"
      proof (intro allI impI)
        fix j assume "j < Suc k"
        then show "\<not> site_matches h ((s # rest) ! j)"
          using False k(3) by (cases j) auto
      qed
      then show ?L using k by (intro exI[of _ "Suc k"]) simp
    qed
    then show ?thesis using eq Cons.IH by simp
  qed
qed

lemma getBlockedDomain_Some:
  "getBlockedDomain U url sites = Some d \<longleftrightarrow>
     (\<exists>h. U url = Inr h \<and>
        (\<exists>i < length sites. site_matches (toLowerCase h) (sites ! i)
           \<and> (\<forall>j < i. \<not> site_matches (toLowerCase h) (sites ! j)) \<and> d = domain (sites ! i)))"
  by (cases "U url") (simp_all add: getBlockedDomain_def match_loop_Some)

lemma getBlockedDomain_None:
  "getBlockedDomain U url sites = None \<longleftrightarrow>
     (\<forall>h. U url = Inr h \<longrightarrow> (\<forall>s \<in> set sites. \<not> site_matches (toLowerCase h) s))"
  by (cases "U url") (simp_all add: getBlockedDomain_def match_loop_None)

text \<open>
  C2. For every URL string and rule list, \<open>getBlockedDomain\<close> returns a domain exactly when
  the URL parses and the lowercased hostname equals the domain of an enabled rule or ends
  with a dot followed by it; the domain returned is that of the first such rule in list
  order. An unparsable URL gives \<open>null\<close>: the exception of the parser is caught, and the
  function has no other outcome than a domain or \<open>null\<close>.
\<close>

theorem getBlockedDomain_first_enabled_match:
  "(getBlockedDomain U url sites = Some d \<longleftrightarrow>
      (\<exists>h. U url = Inr h \<and>
         (\<exists>i < length sites. site_matches (toLowerCase h) (sites ! i)
            \<and> (\<forall>j < i. \<not> site_matches (toLowerCase h) (sites ! j)) \<and> d = domain (sites ! i))))
   \<and> (getBlockedDomain U url sites \<noteq> None \<longleftrightarrow>
      (\<exists>h. U url = Inr h \<and> (\<exists>s \<in> set sites. site_matches (toLowerCase h) s)))
   \<and> (U url = Inl e \<longrightarrow> getBlockedDomain U url sites = None)"
proof (intro conjI)
  show "getBlockedDomain U url sites = Some d \<longleftrightarrow>
      (\<exists>h. U url = Inr h \<and>
         (\<exists>i < length sites. site_matches (toLowerCase h) (sites ! i)
            \<and> (\<forall>j < i. \<not> site_matches (toLowerCase h) (sites ! j)) \<and> d = domain (sites ! i)))"
    by (rule getBlockedDomain_Some)
  show "getBlockedDomain U url sites \<noteq> None \<longleftrightarrow>
      (\<exists>h. U url = Inr h \<and> (\<exists>s \<in> set sites. site_matches (toLowerCase h) s))"
    by (cases "U url") (simp_all add: getBlockedDomain_def match_loop_None)
  show "U url = Inl e \<longrightarrow> getBlockedDomain U url sites = None"
    by (simp add: getBlockedDomain_def)
qed

theorem getBlockedDomain_first_enabled_match_witness:
  "getBlockedDomain example_hostname ''https://Sub.Example.com/x'' example_sites
     = Some ''example.com''
   \<and> getBlockedDomain example_hostname ''not a url'' example_sites = None"
proof -
  let ?u = "''https://Sub.Example.com/x''"
  have p: "example_hostname ?u = Inr ''Sub.Example.com''" by code_simp
  have len: "1 < length example_sites" by code_simp
  have m1: "site_matches (toLowerCase ''Sub.Example.com'') (example_sites ! 1)" by code_simp
  have m0: "\<forall>j < 1. \<not> site_matches (toLowerCase ''Sub.Example.com'') (example_sites ! j)"
    by code_simp
  have d: "''example.com'' = domain (example_sites ! 1)" by code_simp
  have rhs: "\<exists>h. example_hostname ?u = Inr h \<and>
         (\<exists>i < length example_sites. site_matches (toLowerCase h) (example_sites ! i)
            \<and> (\<forall>j < i. \<not> site_matches (toLowerCase h) (example_sites ! j))
            \<and> ''example.com'' = domain (example_sites ! i))"
    using p len m1 m0 d by blast
  have 1: "getBlockedDomain example_hostname ?u example_sites = Some ''example.com''"
    using getBlockedDomain_first_enabled_match
            [of example_hostname ?u example_sites "''example.com''" TypeError] rhs
    by blast
  have q: "example_hostname ''not a url'' = Inl TypeError" by code_simp
  have 2: "getBlockedDomain example_hostname ''not a url'' example_sites = None"
    using getBlockedDomain_first_enabled_match
            [of example_hostname "''not a url''" example_sites "''example.com''" TypeError] q
    by blast
  show ?thesis using 1 2 by simp
qed

section \<open>Storage, notification and the ledger after each operation\<close>

lemma expired_keys_simps [simp]:
  "expired_keys now [] = {}"
  "expired_keys now ((d, t) # xs) =
     (if unlockedUntil t \<le> now then insert d (expired_keys now xs) else expired_keys now xs)"
  by (simp_all add: expired_keys_def)


lemma get_settings_simps [simp]:
  "fst (storage_get_settings w) = stored_settings w"
  "stored_settings (snd (storage_get_settings w)) = stored_settings w"
  "stored_unlockTimers (snd (storage_get_settings w)) = stored_unlockTimers w"
  "alarms (snd (storage_get_settings w)) = alarms w"
  "tabs (snd (storage_get_settings w)) = tabs w"
  "sent (snd (storage_get_settings w)) = sent w"
  "reads (snd (storage_get_settings w)) = reads w @ [''settings'']"
  by (simp_all add: storage_get_settings_def)

lemma get_unlockTimers_simps [simp]:
  "fst (storage_get_unlockTimers w) = ledger w"
  "stored_settings (snd (storage_get_unlockTimers w)) = stored_settings w"
  "stored_unlockTimers (snd (storage_get_unlockTimers w)) = stored_unlockTimers w"
  "alarms (snd (storage_get_unlockTimers w)) = alarms w"
  "tabs (snd (storage_get_unlockTimers w)) = tabs w"
  "sent (snd (storage_get_unlockTimers w)) = sent w"
  "reads (snd (storage_get_unlockTimers w)) = reads w @ [''unlockTimers'']"
  by (simp_all add: storage_get_unlockTimers_def)

lemma set_unlockTimers_simps [simp]:
  "stored_settings (storage_set_unlockTimers ts w) = stored_settings w"
  "stored_unlockTimers (storage_set_unlockTimers ts w) = Some ts"
  "alarms (storage_set_unlockTimers ts w) = alarms w"
  "tabs (storage_set_unlockTimers ts w) = tabs w"
  "sent (storage_set_unlockTimers ts w) = sent w"
  "reads (storage_set_unlockTimers ts w) = reads w"
  by (simp_all add: storage_set_unlockTimers_def)

lemma alarms_create_simps [simp]:
  "stored_settings (alarms_create nm t w) = stored_settings w"
  "stored_unlockTimers (alarms_create nm t w) = stored_unlockTimers w"
  "alarms (alarms_create nm t w) = AList.update nm t (alarms w)"
  "tabs (alarms_create nm t w) = tabs w"
  "sent (alarms_create nm t w) = sent w"
  "reads (alarms_create nm t w) = reads w"
  by (simp_all add: alarms_create_def)

lemma ledger_simps [simp]:
  "ledger (snd (storage_get_settings w)) = ledger w"
  "ledger (snd (storage_get_unlockTimers w)) = ledger w"
  "ledger (storage_set_unlockTimers ts w) = ts"
  "ledger (alarms_create nm t w) = ledger w"
  by (simp_all add: ledger_def)

lemma ledger_cong: "stored_unlockTimers w' = stored_unlockTimers w \<Longrightarrow> ledger w' = ledger w"
  by (simp add: ledger_def)

lemma notify_loop_frame:
  "stored_settings (snd (notify_loop U ts d a r w)) = stored_settings w
   \<and> stored_unlockTimers (snd (notify_loop U ts d a r w)) = stored_unlockTimers w
   \<and> alarms (snd (notify_loop U ts d a r w)) = alarms w
   \<and> tabs (snd (notify_loop U ts d a r w)) = tabs w"
proof (induction ts arbitrary: w)
  case Nil
  show ?case by simp
next
  case (Cons t rest)
  show ?case
  proof (cases "tabUrl t")
    case None
    then show ?thesis using Cons.IH by simp
  next
    case (Some u)
    show ?thesis
    proof (cases "u = []")
      case True
      then show ?thesis using Some Cons.IH by simp
    next
      case False
      show ?thesis
      proof (cases "stored_settings w")
        case None
        then show ?thesis using Some False
          by (simp add: split_beta)
      next
        case (Some s)
        then show ?thesis using \<open>tabUrl t = Some u\<close> False Cons.IH
          by (simp add: split_beta)
      qed
    qed
  qed
qed


lemma notify_frame [simp]:
  "stored_settings (snd (notifyTabsForDomain U d a r w)) = stored_settings w"
  "stored_unlockTimers (snd (notifyTabsForDomain U d a r w)) = stored_unlockTimers w"
  "alarms (snd (notifyTabsForDomain U d a r w)) = alarms w"
  "tabs (snd (notifyTabsForDomain U d a r w)) = tabs w"
  "ledger (snd (notifyTabsForDomain U d a r w)) = ledger w"
  using notify_loop_frame[of U "tabs w" d a r w]
  by (simp_all add: notifyTabsForDomain_def ledger_def)


lemma unlockSite_write_frame:
  "ledger (snd (unlockSite_write U d s n1 n2 n3 ts w)) =
     (if d = ''__proto__'' \<and> map_of ts d = None then ts
      else AList.update d \<lparr>unlockedUntil = n1 + s * 1000, unlockedAt = n2\<rparr> ts)"
  "alarms (snd (unlockSite_write U d s n1 n2 n3 ts w)) =
     AList.update (''reblock_'' @ d) (n3 + s * 1000) (alarms w)"
  "stored_settings (snd (unlockSite_write U d s n1 n2 n3 ts w)) = stored_settings w"
  by (simp_all add: unlockSite_write_def split_beta Let_def split: option.split)

lemma ledger_unlockSite:
  "ledger (snd (unlockSite U d s n1 n2 n3 w)) =
     (if d = ''__proto__'' \<and> map_of (ledger w) d = None then ledger w
      else AList.update d \<lparr>unlockedUntil = n1 + s * 1000, unlockedAt = n2\<rparr> (ledger w))"
  by (simp add: unlockSite_def split_beta unlockSite_write_frame)


lemma onAlarm_set_frame [simp]:
  "ledger (onAlarm_set d ts w) = AList.delete d ts"
  "alarms (onAlarm_set d ts w) = alarms w"
  "stored_settings (onAlarm_set d ts w) = stored_settings w"
  by (simp_all add: onAlarm_set_def)


lemma cleanup_loop_fst:
  "fst (cleanup_loop now xs (acc, hc)) = filter (\<lambda>e. fst e \<notin> expired_keys now xs) acc"
proof (induction xs arbitrary: acc hc)
  case Nil
  show ?case by simp
next
  case (Cons x xs)
  obtain d t where x: "x = (d, t)" by (cases x)
  have "filter (\<lambda>e. d \<noteq> fst e \<and> fst e \<notin> expired_keys now xs) acc =
        filter (\<lambda>e. fst e \<noteq> d \<and> fst e \<notin> expired_keys now xs) acc"
    by (rule filter_cong) auto
  then show ?case using x Cons.IH
    by (simp add: AList.delete_eq case_prod_unfold)
qed

lemma cleanup_loop_snd:
  "snd (cleanup_loop now xs (acc, hc)) \<longleftrightarrow> hc \<or> expired_keys now xs \<noteq> {}"
proof (induction xs arbitrary: acc hc)
  case Nil
  show ?case by simp
next
  case (Cons x xs)
  obtain d t where x: "x = (d, t)" by (cases x)
  show ?case using x Cons.IH by simp
qed

lemma cleanup_write_eq:
  "cleanup_write now ts w =
     (if expired_keys now ts = {} then w
      else storage_set_unlockTimers (filter (\<lambda>e. fst e \<notin> expired_keys now ts) ts) w)"
  by (simp add: cleanup_write_def split_beta Let_def cleanup_loop_fst cleanup_loop_snd)

lemma cleanup_write_frame:
  "ledger (cleanup_write now ts w) =
     (if expired_keys now ts = {} then ledger w
      else filter (\<lambda>e. fst e \<notin> expired_keys now ts) ts)"
  "alarms (cleanup_write now ts w) = alarms w"
  "stored_settings (cleanup_write now ts w) = stored_settings w"
  by (simp_all add: cleanup_write_eq)

lemma ledger_cleanup:
  "ledger (cleanupExpiredTimers now w) =
     filter (\<lambda>e. fst e \<notin> expired_keys now (ledger w)) (ledger w)"
proof (cases "expired_keys now (ledger w) = {}")
  case True
  then show ?thesis
    by (simp add: cleanupExpiredTimers_def split_beta cleanup_write_frame)
next
  case False
  then show ?thesis
    by (simp add: cleanupExpiredTimers_def split_beta cleanup_write_frame)
qed




section \<open>The lock decision\<close>

lemma isDomainUnlocked_fst:
  "fst (isDomainUnlocked d n1 n2 w) =
     (case map_of (ledger w) d of
        None \<Rightarrow> \<lparr>unlocked = False, remainingTime = 0\<rparr>
      | Some t \<Rightarrow>
          if unlockedUntil t > n1
          then \<lparr>unlocked = True, remainingTime = ceil_div (unlockedUntil t - n2) 1000\<rparr>
          else \<lparr>unlocked = False, remainingTime = 0\<rparr>)"
  by (simp add: isDomainUnlocked_def split_beta split: option.split)

lemma isDomainUnlocked_snd:
  "snd (isDomainUnlocked d n1 n2 w) = w\<lparr>reads := reads w @ [''unlockTimers'']\<rparr>"
  by (simp add: isDomainUnlocked_def storage_get_unlockTimers_def split: option.split)

lemma isDomainUnlocked_live: "unlocked (fst (isDomainUnlocked d n1 n2 w)) \<longleftrightarrow> live d n1 w"
  by (simp add: isDomainUnlocked_fst live_def split: option.split)

lemma live_reads [simp]: "live d now (w\<lparr>reads := r\<rparr>) = live d now w"
  by (simp add: live_def ledger_def)

lemma shouldBlockTab_off:
  "\<not> globalEnabled w \<Longrightarrow>
     shouldBlockTab U url n1 n2 w = (not_blocked, w\<lparr>reads := reads w @ [''settings'']\<rparr>)"
  by (simp add: shouldBlockTab_def globalEnabled_def storage_get_settings_def
      split: option.splits)

lemma shouldBlockTab_unmatched:
  "getBlockedDomain U url (rules w) = None \<or> getBlockedDomain U url (rules w) = Some [] \<Longrightarrow>
     shouldBlockTab U url n1 n2 w = (not_blocked, w\<lparr>reads := reads w @ [''settings'']\<rparr>)"
  by (auto simp: shouldBlockTab_def rules_def storage_get_settings_def getBlockedDomain_def
      split: option.splits sum.splits)

lemma shouldBlockTab_matched:
  assumes "globalEnabled w" and "getBlockedDomain U url (rules w) = Some d" and "d \<noteq> []"
  shows "shouldBlockTab U url n1 n2 w =
           (\<lparr>shouldBlock = \<not> live d n1 w, block_domain = Some d,
             block_remainingTime =
               Some (remainingTime (fst (isDomainUnlocked d n1 n2 w)))\<rparr>,
            w\<lparr>reads := reads w @ [''settings'', ''unlockTimers'']\<rparr>)"
proof -
  obtain s where s: "stored_settings w = Some s" "settings_enabled s"
    using assms(1) by (auto simp: globalEnabled_def split: option.splits)
  let ?w1 = "w\<lparr>reads := reads w @ [''settings'']\<rparr>"
  have g: "getBlockedDomain U url (blockedSites s) = Some d"
    using assms(2) s by (simp add: rules_def)
  have l: "ledger ?w1 = ledger w" by (simp add: ledger_def)
  have f: "fst (isDomainUnlocked d n1 n2 ?w1) = fst (isDomainUnlocked d n1 n2 w)"
    by (simp add: isDomainUnlocked_fst l)
  show ?thesis
    using s g assms(3) f
    by (simp add: shouldBlockTab_def storage_get_settings_def split_beta
        isDomainUnlocked_snd isDomainUnlocked_live)
qed

lemma shouldBlock_iff:
  "shouldBlock (fst (shouldBlockTab U url n1 n2 w)) \<longleftrightarrow>
     globalEnabled w \<and>
     (\<exists>d. getBlockedDomain U url (rules w) = Some d \<and> d \<noteq> [] \<and> \<not> live d n1 w)"
proof (cases "globalEnabled w")
  case False
  then show ?thesis by (simp add: shouldBlockTab_off not_blocked_def)
next
  case True
  show ?thesis
  proof (cases "getBlockedDomain U url (rules w)")
    case None
    then show ?thesis by (simp add: shouldBlockTab_unmatched not_blocked_def)
  next
    case (Some d)
    show ?thesis
    proof (cases "d = []")
      case True
      then show ?thesis using Some by (simp add: shouldBlockTab_unmatched not_blocked_def)
    next
      case False
      then show ?thesis using Some True by (simp add: shouldBlockTab_matched)
    qed
  qed
qed

text \<open>
  C1, as the code has it. For settings whose enabled rules have non-empty domains,
  \<open>shouldBlockTab\<close> reports blocked exactly when the global flag is set, the URL's
  lowercased hostname matches an enabled rule, and the domain of the first such rule in
  list order has no live unlock entry. When the flag is off or no rule matches, the
  answer is not-blocked and the only storage key read is \<open>settings\<close>: the ledger is not
  consulted.
\<close>

theorem shouldBlockTab_first_match_decision:
  assumes "\<forall>r \<in> set (rules w). enabled r \<longrightarrow> domain r \<noteq> []"
  shows "(shouldBlock (fst (shouldBlockTab U url n1 n2 w)) \<longleftrightarrow>
            globalEnabled w \<and>
            (\<exists>h. U url = Inr h \<and>
               (\<exists>i < length (rules w). site_matches (toLowerCase h) (rules w ! i)
                  \<and> (\<forall>j < i. \<not> site_matches (toLowerCase h) (rules w ! j))
                  \<and> \<not> live (domain (rules w ! i)) n1 w)))
         \<and> (\<not> globalEnabled w \<or>
              (\<forall>h. U url = Inr h \<longrightarrow> (\<forall>r \<in> set (rules w). \<not> site_matches (toLowerCase h) r))
            \<longrightarrow> shouldBlockTab U url n1 n2 w
                  = (not_blocked, w\<lparr>reads := reads w @ [''settings'']\<rparr>))"
proof (intro conjI impI)
  have nonempty: "d \<noteq> []" if "getBlockedDomain U url (rules w) = Some d" for d
  proof -
    from that obtain h i where i: "i < length (rules w)"
      "site_matches (toLowerCase h) (rules w ! i)" "d = domain (rules w ! i)"
      by (auto simp: getBlockedDomain_Some)
    then have "rules w ! i \<in> set (rules w)" "enabled (rules w ! i)"
      by (simp_all add: site_matches_def)
    with assms i(3) show ?thesis by auto
  qed
  show "shouldBlock (fst (shouldBlockTab U url n1 n2 w)) \<longleftrightarrow>
            globalEnabled w \<and>
            (\<exists>h. U url = Inr h \<and>
               (\<exists>i < length (rules w). site_matches (toLowerCase h) (rules w ! i)
                  \<and> (\<forall>j < i. \<not> site_matches (toLowerCase h) (rules w ! j))
                  \<and> \<not> live (domain (rules w ! i)) n1 w))"
    (is "?L \<longleftrightarrow> ?E \<and> ?R")
  proof
    assume ?L
    then obtain d where d: "globalEnabled w" "getBlockedDomain U url (rules w) = Some d"
      "\<not> live d n1 w"
      by (auto simp: shouldBlock_iff)
    from d(2) obtain h i where "U url = Inr h" "i < length (rules w)"
      "site_matches (toLowerCase h) (rules w ! i)"
      "\<forall>j < i. \<not> site_matches (toLowerCase h) (rules w ! j)" "d = domain (rules w ! i)"
      by (auto simp: getBlockedDomain_Some)
    with d show "?E \<and> ?R" by blast
  next
    assume "?E \<and> ?R"
    then obtain h i where hi: "globalEnabled w" "U url = Inr h" "i < length (rules w)"
      "site_matches (toLowerCase h) (rules w ! i)"
      "\<forall>j < i. \<not> site_matches (toLowerCase h) (rules w ! j)"
      "\<not> live (domain (rules w ! i)) n1 w"
      by blast
    then have g: "getBlockedDomain U url (rules w) = Some (domain (rules w ! i))"
      unfolding getBlockedDomain_Some by blast
    from nonempty[OF g] g hi show ?L by (auto simp: shouldBlock_iff)
  qed
next
  assume "\<not> globalEnabled w \<or>
    (\<forall>h. U url = Inr h \<longrightarrow> (\<forall>r \<in> set (rules w). \<not> site_matches (toLowerCase h) r))"
  then show "shouldBlockTab U url n1 n2 w = (not_blocked, w\<lparr>reads := reads w @ [''settings'']\<rparr>)"
    using shouldBlockTab_off[of w U url n1 n2] shouldBlockTab_unmatched[of U url w n1 n2]
    by (auto simp: getBlockedDomain_None)
qed

theorem shouldBlockTab_first_match_decision_witness:
  "shouldBlock (fst (shouldBlockTab example_hostname ''https://sub.example.com/x''
       40000 40000 example_world))
   \<and> shouldBlockTab example_hostname ''not a url'' 40000 40000 example_world
       = (not_blocked, example_world\<lparr>reads := reads example_world @ [''settings'']\<rparr>)"
proof -
  let ?u = "''https://sub.example.com/x''"
  have hyp: "\<forall>r \<in> set (rules example_world). enabled r \<longrightarrow> domain r \<noteq> []" by code_simp
  have on: "globalEnabled example_world" by code_simp
  have p: "example_hostname ?u = Inr ''sub.example.com''" by code_simp
  have len: "1 < length (rules example_world)" by code_simp
  have m1: "site_matches (toLowerCase ''sub.example.com'') (rules example_world ! 1)"
    by code_simp
  have m0: "\<forall>j < 1. \<not> site_matches (toLowerCase ''sub.example.com'') (rules example_world ! j)"
    by code_simp
  have nl: "\<not> live (domain (rules example_world ! 1)) 40000 example_world" by code_simp
  have rhs: "globalEnabled example_world \<and>
            (\<exists>h. example_hostname ?u = Inr h \<and>
               (\<exists>i < length (rules example_world).
                  site_matches (toLowerCase h) (rules example_world ! i)
                  \<and> (\<forall>j < i. \<not> site_matches (toLowerCase h) (rules example_world ! j))
                  \<and> \<not> live (domain (rules example_world ! i)) 40000 example_world))"
    using on p len m1 m0 nl by blast
  have 1: "shouldBlock (fst (shouldBlockTab example_hostname ?u 40000 40000 example_world))"
    using shouldBlockTab_first_match_decision
            [OF hyp, of example_hostname ?u 40000 40000] rhs
    by blast
  have q: "example_hostname ''not a url'' = Inl TypeError" by code_simp
  have 2: "shouldBlockTab example_hostname ''not a url'' 40000 40000 example_world
       = (not_blocked, example_world\<lparr>reads := reads example_world @ [''settings'']\<rparr>)"
    using shouldBlockTab_first_match_decision
            [OF hyp, of example_hostname "''not a url''" 40000 40000] q
    by simp
  show ?thesis using 1 2 by simp
qed

theorem I1_some_rule_counterexample:
  "\<not> shouldBlock (fst (shouldBlockTab example_hostname ''https://sub.example.com/x''
         2000 2000 example_world))
   \<and> I1_blocked example_hostname ''https://sub.example.com/x'' 2000 example_world"
  by code_simp

text \<open>
  C9. \<open>shouldBlockTab\<close> only reads: whatever the URL, the clock and the stored state, it
  leaves the stored settings, the unlock timers, the alarms, the tabs and the messages
  sent as they were, and an earlier evaluation does not change the verdict of a later one.
\<close>

theorem shouldBlockTab_side_effect_free:
  "stored_settings (snd (shouldBlockTab U url n1 n2 w)) = stored_settings w
   \<and> stored_unlockTimers (snd (shouldBlockTab U url n1 n2 w)) = stored_unlockTimers w
   \<and> alarms (snd (shouldBlockTab U url n1 n2 w)) = alarms w
   \<and> tabs (snd (shouldBlockTab U url n1 n2 w)) = tabs w
   \<and> sent (snd (shouldBlockTab U url n1 n2 w)) = sent w
   \<and> fst (shouldBlockTab U url n1 n2 (snd (shouldBlockTab U url' m1 m2 w)))
       = fst (shouldBlockTab U url n1 n2 w)"
proof -
  have snd_cases: "snd (shouldBlockTab U u a b w) = w\<lparr>reads := reads w @ [''settings'']\<rparr> \<or>
     snd (shouldBlockTab U u a b w) = w\<lparr>reads := reads w @ [''settings'', ''unlockTimers'']\<rparr>"
    for u a b
  proof (cases "globalEnabled w \<and> (\<exists>d. getBlockedDomain U u (rules w) = Some d \<and> d \<noteq> [])")
    case True
    then show ?thesis using shouldBlockTab_matched[of w U u _ a b] by auto
  next
    case False
    then show ?thesis
      using shouldBlockTab_off[of w U u a b] shouldBlockTab_unmatched[of U u w a b]
      by (cases "getBlockedDomain U u (rules w)") auto
  qed
  have fst_reads: "fst (shouldBlockTab U url n1 n2 (w\<lparr>reads := r\<rparr>)) = fst (shouldBlockTab U url n1 n2 w)"
    for r
    by (simp add: shouldBlockTab_def storage_get_settings_def isDomainUnlocked_def
        storage_get_unlockTimers_def ledger_def split_beta split: option.splits)
  show ?thesis
    using snd_cases[of url n1 n2] snd_cases[of url' m1 m2] fst_reads
    by (intro conjI) auto
qed

section \<open>Grant, liveness and eviction\<close>

lemma ceil_div_thousands: "ceil_div (s * 1000) 1000 = s"
  by (simp add: ceil_div_def)

lemma ceil_div_elapsed: "ceil_div (now + s * 1000 - t) 1000 = s - (t - now) div 1000"
proof -
  have "- (now + s * 1000 - t) = (t - now) + (- s) * 1000" by simp
  then have "(- (now + s * 1000 - t)) div 1000 = (t - now) div 1000 + (- s)"
    by (metis div_mult_self1 zero_neq_numeral add.commute mult.commute)
  then show ?thesis by (simp add: ceil_div_def)
qed

lemma map_of_unlockSite:
  "d \<noteq> ''__proto__'' \<Longrightarrow>
   map_of (ledger (snd (unlockSite U d s n1 n2 n3 w))) d' =
     (if d' = d then Some \<lparr>unlockedUntil = n1 + s * 1000, unlockedAt = n2\<rparr>
      else map_of (ledger w) d')"
  by (simp add: ledger_unlockSite update_conv')

lemma map_of_unlockSite_other:
  "d' \<noteq> d \<Longrightarrow> map_of (ledger (snd (unlockSite U d s n1 n2 n3 w))) d' = map_of (ledger w) d'"
  by (simp add: ledger_unlockSite update_conv')

text \<open>
  C3. For a domain other than \<open>__proto__\<close> and a grant whose arithmetic is exact: right
  after \<open>unlockSite(d, s)\<close> with a positive \<open>s\<close>, at the instant \<open>now\<close> of the grant,
  \<open>isDomainUnlocked(d)\<close> answers unlocked with \<open>s\<close> seconds remaining; when its first clock
  read \<open>t\<close> is before the expiry it answers unlocked with \<open>s\<close> less the whole seconds
  elapsed at its second read \<open>t'\<close>. From the expiry \<open>now + 1000 s\<close> on it answers locked,
  with the entry still in the ledger (no alarm and no sweep has run). On any stored state
  and for any domain it answers unlocked exactly when the ledger has an entry for the
  domain whose \<open>unlockedUntil\<close> is greater than the clock, and it writes nothing.
\<close>

theorem unlockSite_then_isDomainUnlocked:
  "(d \<noteq> ''__proto__'' \<and> safe_grant now s \<longrightarrow>
      (0 < s \<longrightarrow>
         fst (isDomainUnlocked d now now (snd (unlockSite U d s now n2 n3 w)))
           = \<lparr>unlocked = True, remainingTime = s\<rparr>)
      \<and> (safe_clock t \<and> safe_clock t' \<and> t < now + s * 1000 \<longrightarrow>
         fst (isDomainUnlocked d t t' (snd (unlockSite U d s now n2 n3 w)))
           = \<lparr>unlocked = True, remainingTime = s - (t' - now) div 1000\<rparr>)
      \<and> (safe_clock t \<and> now + s * 1000 \<le> t \<longrightarrow>
         fst (isDomainUnlocked d t t' (snd (unlockSite U d s now n2 n3 w)))
           = \<lparr>unlocked = False, remainingTime = 0\<rparr>
         \<and> map_of (ledger (snd (unlockSite U d s now n2 n3 w))) d \<noteq> None))
   \<and> (unlocked (fst (isDomainUnlocked d t t' w)) \<longleftrightarrow>
        (\<exists>e. map_of (ledger w) d = Some e \<and> unlockedUntil e > t))
   \<and> snd (isDomainUnlocked d t t' w) = w\<lparr>reads := reads w @ [''unlockTimers'']\<rparr>"
proof (intro conjI impI)
  assume "d \<noteq> ''__proto__'' \<and> safe_grant now s" and "0 < s"
  then show "fst (isDomainUnlocked d now now (snd (unlockSite U d s now n2 n3 w)))
        = \<lparr>unlocked = True, remainingTime = s\<rparr>"
    by (simp add: isDomainUnlocked_fst map_of_unlockSite ceil_div_thousands)
next
  assume "d \<noteq> ''__proto__'' \<and> safe_grant now s"
    and "safe_clock t \<and> safe_clock t' \<and> t < now + s * 1000"
  then show "fst (isDomainUnlocked d t t' (snd (unlockSite U d s now n2 n3 w)))
        = \<lparr>unlocked = True, remainingTime = s - (t' - now) div 1000\<rparr>"
    by (simp add: isDomainUnlocked_fst map_of_unlockSite ceil_div_elapsed)
next
  assume "d \<noteq> ''__proto__'' \<and> safe_grant now s" and "safe_clock t \<and> now + s * 1000 \<le> t"
  then show "fst (isDomainUnlocked d t t' (snd (unlockSite U d s now n2 n3 w)))
        = \<lparr>unlocked = False, remainingTime = 0\<rparr>"
    by (simp add: isDomainUnlocked_fst map_of_unlockSite)
next
  assume "d \<noteq> ''__proto__'' \<and> safe_grant now s"
  then show "map_of (ledger (snd (unlockSite U d s now n2 n3 w))) d \<noteq> None"
    by (simp add: map_of_unlockSite)
next
  show "unlocked (fst (isDomainUnlocked d t t' w)) \<longleftrightarrow>
        (\<exists>e. map_of (ledger w) d = Some e \<and> unlockedUntil e > t)"
    by (simp add: isDomainUnlocked_fst split: option.split)
next
  show "snd (isDomainUnlocked d t t' w) = w\<lparr>reads := reads w @ [''unlockTimers'']\<rparr>"
    by (rule isDomainUnlocked_snd)
qed

theorem unlockSite_then_isDomainUnlocked_witness:
  "fst (isDomainUnlocked ''example.com'' 50000 50000
          (snd (unlockSite example_hostname ''example.com'' 30 50000 50000 50001 example_world)))
     = \<lparr>unlocked = True, remainingTime = 30\<rparr>
   \<and> fst (isDomainUnlocked ''example.com'' 60000 60000
          (snd (unlockSite example_hostname ''example.com'' 30 50000 50000 50001 example_world)))
     = \<lparr>unlocked = True, remainingTime = 20\<rparr>
   \<and> fst (isDomainUnlocked ''example.com'' 80000 80000
          (snd (unlockSite example_hostname ''example.com'' 30 50000 50000 50001 example_world)))
     = \<lparr>unlocked = False, remainingTime = 0\<rparr>"
proof -
  note th = unlockSite_then_isDomainUnlocked
              [where d = "''example.com''" and now = 50000 and s = 30 and U = example_hostname
                 and ?n2.0 = 50000 and ?n3.0 = 50001 and w = example_world]
  have key: "''example.com'' \<noteq> ''__proto__'' \<and> safe_grant 50000 30"
    by (simp add: safe_grant_def MAX_SAFE_INTEGER_def)
  have 1: "fst (isDomainUnlocked ''example.com'' 50000 50000
          (snd (unlockSite example_hostname ''example.com'' 30 50000 50000 50001 example_world)))
     = \<lparr>unlocked = True, remainingTime = 30\<rparr>"
    using th[where t = 50000 and t' = 50000] key by simp
  have 2: "fst (isDomainUnlocked ''example.com'' 60000 60000
          (snd (unlockSite example_hostname ''example.com'' 30 50000 50000 50001 example_world)))
     = \<lparr>unlocked = True, remainingTime = 20\<rparr>"
    using th[where t = 60000 and t' = 60000] key
    by (simp add: safe_clock_def MAX_SAFE_INTEGER_def)
  have 3: "fst (isDomainUnlocked ''example.com'' 80000 80000
          (snd (unlockSite example_hostname ''example.com'' 30 50000 50000 50001 example_world)))
     = \<lparr>unlocked = False, remainingTime = 0\<rparr>"
    using th[where t = 80000 and t' = 80000] key
    by (simp add: safe_clock_def MAX_SAFE_INTEGER_def)
  show ?thesis using 1 2 3 by simp
qed

text \<open>
  The key \<open>__proto__\<close>, which is no domain (a rule's domain has a dot and no underscore):
  on a ledger without that key the grant stores no entry, and \<open>isDomainUnlocked\<close> answers
  locked after it.
\<close>

lemma unlockSite_proto_answers_locked:
  assumes "map_of (ledger w) ''__proto__'' = None"
  shows "fst (isDomainUnlocked ''__proto__'' t t' (snd (unlockSite U ''__proto__'' s n1 n2 n3 w)))
           = \<lparr>unlocked = False, remainingTime = 0\<rparr>"
  using assms by (simp add: isDomainUnlocked_fst ledger_unlockSite)

lemma ledger_onAlarm_any:
  "ledger (snd (onAlarm U nm w)) =
     (if startsWith nm ''reblock_''
      then AList.delete (drop (length ''reblock_'') nm) (ledger w) else ledger w)"
  by (simp add: onAlarm_def split_beta Let_def del: length_Cons list.size)


lemma set_update_cases: "e \<in> set (AList.update k v al) \<Longrightarrow> e = (k, v) \<or> e \<in> set al"
  by (induction al) (auto split: if_splits)

lemma one_entry_for_key:
  "distinct (map fst xs) \<Longrightarrow> k \<in> fst ` set xs \<Longrightarrow> length (filter (\<lambda>e. fst e = k) xs) = 1"
proof (induction xs)
  case Nil
  then show ?case by simp
next
  case (Cons x xs)
  show ?case
  proof (cases "fst x = k")
    case True
    then have "k \<notin> fst ` set xs" using Cons.prems(1) by auto
    then have "filter (\<lambda>e. fst e = k) xs = []" by (auto simp: filter_empty_conv)
    then show ?thesis using True by simp
  next
    case False
    then show ?thesis using Cons by auto
  qed
qed

lemma ledger_ok_update:
  assumes "ledger_ok ts" and "unlockedAt v < unlockedUntil v"
  shows "ledger_ok (AList.update k v ts)"
  unfolding ledger_ok_def
proof (intro conjI ballI)
  show "distinct (map fst (AList.update k v ts))"
    using assms(1) by (simp add: ledger_ok_def distinct_update)
next
  fix e assume "e \<in> set (AList.update k v ts)"
  then have "e = (k, v) \<or> e \<in> set ts" by (rule set_update_cases)
  then show "unlockedAt (snd e) < unlockedUntil (snd e)"
    using assms by (auto simp: ledger_ok_def)
qed

lemma ledger_ok_filter: "ledger_ok ts \<Longrightarrow> ledger_ok (filter P ts)"
  by (simp add: ledger_ok_def distinct_map_filter)

lemma ledger_ok_delete: "ledger_ok ts \<Longrightarrow> ledger_ok (AList.delete k ts)"
  by (simp add: AList.delete_eq ledger_ok_filter)

lemma distinct_unlockSite_write:
  "distinct (map fst ts) \<Longrightarrow>
   distinct (map fst (ledger (snd (unlockSite_write U d s n1 n2 n3 ts w))))"
  by (simp add: unlockSite_write_frame distinct_update)

lemma distinct_cleanup_write:
  "distinct (map fst ts) \<Longrightarrow> distinct (map fst (ledger w)) \<Longrightarrow>
   distinct (map fst (ledger (cleanup_write t ts w)))"
  by (simp add: cleanup_write_frame distinct_map_filter)

lemma ledger_ok_unlockSite_write:
  "ledger_ok ts \<Longrightarrow> n2 < n1 + s * 1000 \<Longrightarrow>
   ledger_ok (ledger (snd (unlockSite_write U d s n1 n2 n3 ts w)))"
  by (simp add: unlockSite_write_frame ledger_ok_update)

lemma ledger_ok_cleanup_write:
  "ledger_ok ts \<Longrightarrow> ledger_ok (ledger w) \<Longrightarrow> ledger_ok (ledger (cleanup_write t ts w))"
  by (simp add: cleanup_write_frame ledger_ok_filter)

text \<open>
  C8, as the code has it. The ledger holds one entry per domain: \<open>unlockSite\<close> overwrites
  the entry of its domain and leaves the other domains alone, and neither it nor the
  alarm eviction nor the sweep ever makes a key occur twice. This holds of the three
  handlers run one after the other, and of the write each of them makes after its
  \<open>await\<close>, on whatever copy \<open>ts\<close> it has read before, so also when the handlers
  interleave. For a domain other than \<open>__proto__\<close> and a grant whose arithmetic is exact,
  the entry written has \<open>unlockedUntil\<close> = the first clock read + 1000 times the duration,
  and \<open>unlockedAt\<close> = the second clock read; a grant for \<open>__proto__\<close> stores no entry. For a
  positive duration and both reads at the same instant the entry has
  \<open>unlockedUntil = unlockedAt + duration\<close> with \<open>unlockedAt < unlockedUntil\<close>. The
  invariant (one entry per domain, each granted before it expires) is kept by every
  grant whose second read comes before the expiry, and by every eviction.
\<close>

theorem unlockTimers_invariant:
  "(distinct (map fst ts) \<longrightarrow>
      distinct (map fst (ledger (snd (unlockSite_write U d s n1 n2 n3 ts w))))
      \<and> distinct (map fst (ledger (onAlarm_set d' ts w)))
      \<and> (distinct (map fst (ledger w)) \<longrightarrow> distinct (map fst (ledger (cleanup_write t ts w)))))
   \<and> (distinct (map fst (ledger w)) \<longrightarrow>
      distinct (map fst (ledger (snd (unlockSite U d s n1 n2 n3 w))))
      \<and> (d \<noteq> ''__proto__'' \<longrightarrow>
           length (filter (\<lambda>e. fst e = d) (ledger (snd (unlockSite U d s n1 n2 n3 w)))) = 1)
      \<and> distinct (map fst (ledger (snd (onAlarm U nm w))))
      \<and> distinct (map fst (ledger (cleanupExpiredTimers t w))))
   \<and> (d \<noteq> ''__proto__'' \<and> safe_grant n1 s \<and> safe_clock n2 \<longrightarrow>
       map_of (ledger (snd (unlockSite U d s n1 n2 n3 w))) d
         = Some \<lparr>unlockedUntil = n1 + s * 1000, unlockedAt = n2\<rparr>)
   \<and> (d' \<noteq> d \<longrightarrow>
       map_of (ledger (snd (unlockSite U d s n1 n2 n3 w))) d' = map_of (ledger w) d')
   \<and> (d = ''__proto__'' \<and> map_of (ledger w) d = None \<longrightarrow>
       ledger (snd (unlockSite U d s n1 n2 n3 w)) = ledger w)
   \<and> (d \<noteq> ''__proto__'' \<and> safe_grant n1 s \<and> 0 < s \<longrightarrow>
       (\<exists>e. map_of (ledger (snd (unlockSite U d s n1 n1 n3 w))) d = Some e
          \<and> unlockedUntil e = unlockedAt e + s * 1000 \<and> unlockedAt e < unlockedUntil e))
   \<and> (ledger_ok ts \<and> safe_grant n1 s \<and> safe_clock n2 \<and> n2 < n1 + s * 1000 \<longrightarrow>
       ledger_ok (ledger (snd (unlockSite_write U d s n1 n2 n3 ts w))))
   \<and> (ledger_ok ts \<longrightarrow>
       ledger_ok (ledger (onAlarm_set d' ts w))
       \<and> (ledger_ok (ledger w) \<longrightarrow> ledger_ok (ledger (cleanup_write t ts w))))
   \<and> (ledger_ok (ledger w) \<and> safe_grant n1 s \<and> safe_clock n2 \<and> n2 < n1 + s * 1000 \<longrightarrow>
       ledger_ok (ledger (snd (unlockSite U d s n1 n2 n3 w))))
   \<and> (ledger_ok (ledger w) \<longrightarrow>
       ledger_ok (ledger (snd (onAlarm U nm w))) \<and> ledger_ok (ledger (cleanupExpiredTimers t w)))"
proof (intro conjI impI)
  assume dist: "distinct (map fst ts)"
  show "distinct (map fst (ledger (snd (unlockSite_write U d s n1 n2 n3 ts w))))"
    using dist by (rule distinct_unlockSite_write)
  show "distinct (map fst (ledger (onAlarm_set d' ts w)))"
    using dist by (simp add: distinct_delete)
  assume "distinct (map fst (ledger w))"
  with dist show "distinct (map fst (ledger (cleanup_write t ts w)))"
    by (rule distinct_cleanup_write)
next
  assume dist: "distinct (map fst (ledger w))"
  show u: "distinct (map fst (ledger (snd (unlockSite U d s n1 n2 n3 w))))"
    using dist by (simp add: ledger_unlockSite distinct_update)
  show "distinct (map fst (ledger (snd (onAlarm U nm w))))"
    using dist by (simp add: ledger_onAlarm_any distinct_delete)
  show "distinct (map fst (ledger (cleanupExpiredTimers t w)))"
    using dist by (simp add: ledger_cleanup distinct_map_filter)
  assume "d \<noteq> ''__proto__''"
  then have "d \<in> fst ` set (ledger (snd (unlockSite U d s n1 n2 n3 w)))"
    by (simp add: ledger_unlockSite dom_update)
  with u show "length (filter (\<lambda>e. fst e = d) (ledger (snd (unlockSite U d s n1 n2 n3 w)))) = 1"
    by (rule one_entry_for_key)
next
  assume "d \<noteq> ''__proto__'' \<and> safe_grant n1 s \<and> safe_clock n2"
  then show "map_of (ledger (snd (unlockSite U d s n1 n2 n3 w))) d
       = Some \<lparr>unlockedUntil = n1 + s * 1000, unlockedAt = n2\<rparr>"
    by (simp add: map_of_unlockSite)
next
  assume "d' \<noteq> d"
  then show "map_of (ledger (snd (unlockSite U d s n1 n2 n3 w))) d' = map_of (ledger w) d'"
    by (rule map_of_unlockSite_other)
next
  assume "d = ''__proto__'' \<and> map_of (ledger w) d = None"
  then show "ledger (snd (unlockSite U d s n1 n2 n3 w)) = ledger w"
    by (auto simp: ledger_unlockSite)
next
  assume "d \<noteq> ''__proto__'' \<and> safe_grant n1 s \<and> 0 < s"
  then show "\<exists>e. map_of (ledger (snd (unlockSite U d s n1 n1 n3 w))) d = Some e
          \<and> unlockedUntil e = unlockedAt e + s * 1000 \<and> unlockedAt e < unlockedUntil e"
    by (simp add: map_of_unlockSite)
next
  assume "ledger_ok ts \<and> safe_grant n1 s \<and> safe_clock n2 \<and> n2 < n1 + s * 1000"
  then show "ledger_ok (ledger (snd (unlockSite_write U d s n1 n2 n3 ts w)))"
    by (simp add: ledger_ok_unlockSite_write)
next
  assume ok: "ledger_ok ts"
  show "ledger_ok (ledger (onAlarm_set d' ts w))"
    using ok by (simp add: ledger_ok_delete)
  assume "ledger_ok (ledger w)"
  with ok show "ledger_ok (ledger (cleanup_write t ts w))"
    by (rule ledger_ok_cleanup_write)
next
  assume "ledger_ok (ledger w) \<and> safe_grant n1 s \<and> safe_clock n2 \<and> n2 < n1 + s * 1000"
  then show "ledger_ok (ledger (snd (unlockSite U d s n1 n2 n3 w)))"
    by (simp add: ledger_unlockSite ledger_ok_update)
next
  assume ok: "ledger_ok (ledger w)"
  show "ledger_ok (ledger (snd (onAlarm U nm w)))"
    using ok by (simp add: ledger_onAlarm_any ledger_ok_delete)
  show "ledger_ok (ledger (cleanupExpiredTimers t w))"
    using ok by (simp add: ledger_cleanup ledger_ok_filter)
qed

theorem unlockTimers_invariant_witness:
  "distinct (map fst (ledger (snd (unlockSite example_hostname ''example.com'' 30
       50000 50000 50001 example_world))))
   \<and> ledger_ok (ledger (snd (unlockSite example_hostname ''example.com'' 30
       50000 50000 50001 example_world)))
   \<and> ledger_ok (ledger (snd (onAlarm example_hostname ''reblock_example.com'' example_world)))
   \<and> ledger_ok (ledger (cleanupExpiredTimers 40000 example_world))
   \<and> ledger_ok (ledger (cleanup_write 40000 (ledger example_world)
       (snd (unlockSite example_hostname ''sub.example.com'' 30 39000 39000 39001 example_world))))
   \<and> (\<exists>e. map_of (ledger (snd (unlockSite example_hostname ''example.com'' 30
               50000 50000 50001 example_world))) ''example.com'' = Some e
          \<and> unlockedUntil e = unlockedAt e + 30 * 1000 \<and> unlockedAt e < unlockedUntil e)"
proof -
  let ?w' = "snd (unlockSite example_hostname ''sub.example.com'' 30 39000 39000 39001
                    example_world)"
  have dist: "distinct (map fst (ledger example_world))" by code_simp
  have ok: "ledger_ok (ledger example_world)" by code_simp
  have key: "''example.com'' \<noteq> ''__proto__''" by simp
  have safe: "safe_grant 50000 30 \<and> safe_clock 50000"
    by (simp add: safe_grant_def safe_clock_def MAX_SAFE_INTEGER_def)
  have pos: "(0::int) < 30" by simp
  have before: "(50000::int) < 50000 + 30 * 1000" by simp
  note th = unlockTimers_invariant
              [where w = example_world and U = example_hostname and d = "''example.com''"
                 and s = 30 and ?n1.0 = 50000 and ?n2.0 = 50000 and ?n3.0 = 50001
                 and nm = "''reblock_example.com''" and t = 40000 and d' = "''example.com''"
                 and ts = "ledger example_world"]
  have ok': "ledger_ok (ledger ?w')"
    using unlockTimers_invariant
              [where w = example_world and U = example_hostname and d = "''sub.example.com''"
                 and s = 30 and ?n1.0 = 39000 and ?n2.0 = 39000 and ?n3.0 = 39001
                 and nm = "''reblock_example.com''" and t = 40000 and d' = "''example.com''"
                 and ts = "ledger example_world"] ok
    by (simp add: safe_grant_def safe_clock_def MAX_SAFE_INTEGER_def)
  have stale: "ledger_ok (ledger (cleanup_write 40000 (ledger example_world) ?w'))"
    using unlockTimers_invariant
              [where w = ?w' and U = example_hostname and d = "''example.com''"
                 and s = 30 and ?n1.0 = 50000 and ?n2.0 = 50000 and ?n3.0 = 50001
                 and nm = "''reblock_example.com''" and t = 40000 and d' = "''example.com''"
                 and ts = "ledger example_world"] ok ok'
    by simp
  have 1: "distinct (map fst (ledger (snd (unlockSite example_hostname ''example.com'' 30
       50000 50000 50001 example_world))))"
    using th dist by simp
  have 2: "ledger_ok (ledger (snd (unlockSite example_hostname ''example.com'' 30
       50000 50000 50001 example_world)))"
    using th ok safe before by simp
  have 3: "ledger_ok (ledger (snd (onAlarm example_hostname ''reblock_example.com''
       example_world)))"
    using th ok by simp
  have 4: "ledger_ok (ledger (cleanupExpiredTimers 40000 example_world))"
    using th ok by simp
  have 5: "\<exists>e. map_of (ledger (snd (unlockSite example_hostname ''example.com'' 30
               50000 50000 50001 example_world))) ''example.com'' = Some e
          \<and> unlockedUntil e = unlockedAt e + 30 * 1000 \<and> unlockedAt e < unlockedUntil e"
    using th key safe pos by simp
  show ?thesis using 1 2 3 4 5 stale by simp
qed

theorem unlockedAt_later_clock_read_counterexample:
  "map_of (ledger (snd (unlockSite example_hostname ''example.com'' 30
       50000 50001 50002 example_world))) ''example.com''
     = Some \<lparr>unlockedUntil = 80000, unlockedAt = 50001\<rparr>
   \<and> (80000 :: int) \<noteq> 50001 + 30 * 1000"
  by (simp add: map_of_unlockSite)










subsection \<open>The alarm listener racing the sweep\<close>















subsection \<open>A due alarm meets an expired entry\<close>









text \<open>
  Two interleavings that differ in what they leave stored. With the entries of two domains
  expired, the sweep stores the empty ledger, and the listener, which has read before,
  stores its copy without its own domain: the expired entry of the other domain is back
  (until the next sweep; the domain is locked all the same). Run one after the other,
  the two handlers leave the ledger empty.
\<close>

lemma stale_write_puts_back_expired_entry:
  "ledger (race_world (run_race example_hostname ''example.com'' 40000
       [SweepGet, AlarmGet, SweepSet, AlarmSet, AlarmNotify]
       (storage_set_unlockTimers
          [(''example.com'', \<lparr>unlockedUntil = 31000, unlockedAt = 1000\<rparr>),
           (''sub.example.com'', \<lparr>unlockedUntil = 32000, unlockedAt = 2000\<rparr>)]
          example_world)))
     = [(''sub.example.com'', \<lparr>unlockedUntil = 32000, unlockedAt = 2000\<rparr>)]
   \<and> ledger (race_world (run_race example_hostname ''example.com'' 40000
       [SweepGet, SweepSet, AlarmGet, AlarmSet, AlarmNotify]
       (storage_set_unlockTimers
          [(''example.com'', \<lparr>unlockedUntil = 31000, unlockedAt = 1000\<rparr>),
           (''sub.example.com'', \<lparr>unlockedUntil = 32000, unlockedAt = 2000\<rparr>)]
          example_world)))
     = []"
  by code_simp

section \<open>Volume: breakpoint lookup and representative level\<close>

lemma mapping_loop_table:
  "mapping_loop db VOLUME_DURATION_MAP =
     (if -50 \<le> db \<and> db < -35 then Some (VOLUME_DURATION_MAP ! 0)
      else if -35 \<le> db \<and> db < -25 then Some (VOLUME_DURATION_MAP ! 1)
      else if -25 \<le> db \<and> db < -15 then Some (VOLUME_DURATION_MAP ! 2)
      else if -15 \<le> db \<and> db < -5 then Some (VOLUME_DURATION_MAP ! 3)
      else if -5 \<le> db \<and> db < 0 then Some (VOLUME_DURATION_MAP ! 4)
      else None)"
  by (simp add: VOLUME_DURATION_MAP_def)

lemma mapping_loop_None_iff: "mapping_loop db VOLUME_DURATION_MAP = None \<longleftrightarrow> db < -50 \<or> 0 \<le> db"
  by (auto simp: mapping_loop_table)

text \<open>
  Below 0 dB the lookup is as the table reads: a level from -50 on lies in the range of
  exactly one entry, which is the one returned, and the default is taken exactly for the
  levels below -50.
\<close>

lemma getVolumeDurationMapping_below_zero:
  assumes "db < 0"
  shows "(mapping_loop db VOLUME_DURATION_MAP = None \<longleftrightarrow> db < -50)
         \<and> (-50 \<le> db \<longrightarrow>
              minDb (getVolumeDurationMapping db) \<le> db \<and> db < maxDb (getVolumeDurationMapping db)
              \<and> getVolumeDurationMapping db \<in> set VOLUME_DURATION_MAP
              \<and> (\<forall>m \<in> set VOLUME_DURATION_MAP.
                    minDb m \<le> db \<and> db < maxDb m \<longrightarrow> m = getVolumeDurationMapping db))"
proof (intro conjI impI)
  show "mapping_loop db VOLUME_DURATION_MAP = None \<longleftrightarrow> db < -50"
    using assms by (auto simp: mapping_loop_None_iff)
next
  assume lo: "-50 \<le> db"
  show "minDb (getVolumeDurationMapping db) \<le> db"
    using assms lo
    by (auto simp: getVolumeDurationMapping_def mapping_loop_table VOLUME_DURATION_MAP_def)
  show "db < maxDb (getVolumeDurationMapping db)"
    using assms lo
    by (auto simp: getVolumeDurationMapping_def mapping_loop_table VOLUME_DURATION_MAP_def)
  show "getVolumeDurationMapping db \<in> set VOLUME_DURATION_MAP"
    using assms lo
    by (auto simp: getVolumeDurationMapping_def mapping_loop_table VOLUME_DURATION_MAP_def)
  show "\<forall>m \<in> set VOLUME_DURATION_MAP.
          minDb m \<le> db \<and> db < maxDb m \<longrightarrow> m = getVolumeDurationMapping db"
    using assms lo
    by (auto simp: getVolumeDurationMapping_def mapping_loop_table VOLUME_DURATION_MAP_def)
qed

text \<open>
  C5, at the level 0 dB (every frequency bin at 255): no range of the table contains it,
  the lookup takes the default and returns the first entry, although 0 is not below the
  lowest \<open>minDb\<close>.
\<close>

theorem getVolumeDurationMapping_at_zero_dB:
  "mapping_loop 0 VOLUME_DURATION_MAP = None
   \<and> getVolumeDurationMapping 0
       = \<lparr>minDb = -50, maxDb = -35, duration = 30, label = ''Whisper''\<rparr>
   \<and> minDb (VOLUME_DURATION_MAP ! 0) < 0"
  by (simp add: getVolumeDurationMapping_def VOLUME_DURATION_MAP_def)

text \<open>
  C10. A level of 0 dB or more is in no range of the table (the last range ends below
  0): the loop falls through all five entries and the default returns the first one, the
  30-second Whisper entry, not the last one. The same default serves the levels below
  -50.
\<close>

theorem getVolumeDurationMapping_default_above_and_below:
  "(0 \<le> db \<longrightarrow>
      mapping_loop db VOLUME_DURATION_MAP = None
      \<and> getVolumeDurationMapping db = VOLUME_DURATION_MAP ! 0
      \<and> duration (getVolumeDurationMapping db) = 30
      \<and> label (getVolumeDurationMapping db) = ''Whisper''
      \<and> getVolumeDurationMapping db \<noteq> last VOLUME_DURATION_MAP)
   \<and> (db < -50 \<longrightarrow>
      mapping_loop db VOLUME_DURATION_MAP = None
      \<and> getVolumeDurationMapping db = VOLUME_DURATION_MAP ! 0)"
proof (intro conjI impI)
  assume "0 \<le> db"
  then show n: "mapping_loop db VOLUME_DURATION_MAP = None"
    by (simp add: mapping_loop_None_iff)
  then show d: "getVolumeDurationMapping db = VOLUME_DURATION_MAP ! 0"
    by (simp add: getVolumeDurationMapping_def)
  show "duration (getVolumeDurationMapping db) = 30"
    unfolding d by (simp add: VOLUME_DURATION_MAP_def)
  show "label (getVolumeDurationMapping db) = ''Whisper''"
    unfolding d by (simp add: VOLUME_DURATION_MAP_def)
  show "getVolumeDurationMapping db \<noteq> last VOLUME_DURATION_MAP"
    unfolding d by (simp add: VOLUME_DURATION_MAP_def)
next
  assume "db < -50"
  then show n: "mapping_loop db VOLUME_DURATION_MAP = None"
    by (simp add: mapping_loop_None_iff)
  then show "getVolumeDurationMapping db = VOLUME_DURATION_MAP ! 0"
    by (simp add: getVolumeDurationMapping_def)
qed

theorem getVolumeDurationMapping_default_above_and_below_witness:
  "duration (getVolumeDurationMapping 0) = 30
   \<and> label (getVolumeDurationMapping 3) = ''Whisper''
   \<and> getVolumeDurationMapping 3 \<noteq> last VOLUME_DURATION_MAP
   \<and> getVolumeDurationMapping (-60) = VOLUME_DURATION_MAP ! 0"
proof -
  have a: "(0::real) \<le> 0" by simp
  have b: "(0::real) \<le> 3" by simp
  have c: "(-60::real) < -50" by simp
  show ?thesis
    using getVolumeDurationMapping_default_above_and_below[of 0] a
      getVolumeDurationMapping_default_above_and_below[of 3] b
      getVolumeDurationMapping_default_above_and_below[of "-60"] c
    by blast
qed

lemma duration_positive: "0 < duration (getVolumeDurationMapping db)"
  by (simp add: getVolumeDurationMapping_def mapping_loop_table VOLUME_DURATION_MAP_def)

lemma calculateAverageVolume_eq:
  assumes "volumeSamples \<noteq> []"
  shows "calculateAverageVolume fadd fdiv fzero fminus60 volumeSamples =
           (let n = length volumeSamples;
                kept = slice (n div 10) (9 * n div 10) (sort volumeSamples)
            in if kept = [] then sort volumeSamples ! (n div 2)
               else fdiv (foldl fadd fzero kept) (length kept))"
  using assms by (simp add: calculateAverageVolume_def Let_def)

lemma length_slice: "b \<le> length xs \<Longrightarrow> length (slice a b xs) = b - a"
  by (simp add: slice_def)

lemma slice_split:
  assumes "a \<le> b" and "b \<le> length xs"
  shows "xs = take a xs @ slice a b xs @ drop b xs"
proof -
  have "drop (b - a) (drop a xs) = drop b xs" using assms by simp
  then have "drop a xs = slice a b xs @ drop b xs"
    unfolding slice_def by (metis append_take_drop_id)
  then have "take a xs @ drop a xs = take a xs @ slice a b xs @ drop b xs" by simp
  then show ?thesis by simp
qed

lemma tenth_lt_nine_tenths: "2 \<le> (n::nat) \<Longrightarrow> n div 10 < 9 * n div 10"
  by linarith

lemma kept_of_multiple_of_ten:
  "(n::nat) mod 10 = 0 \<Longrightarrow> 9 * n div 10 - n div 10 = n - 2 * (n div 10)"
proof -
  assume "n mod 10 = 0"
  then obtain k where k: "n = 10 * k" by (auto simp: mod_eq_0_iff_dvd)
  have "9 * n div 10 = 9 * k" unfolding k by simp
  moreover have "n div 10 = k" unfolding k by simp
  ultimately show ?thesis using k by simp
qed

text \<open>
  C6, as the code has it, for the levels of the platform with their order and with the
  platform's addition \<open>fadd\<close> and division by a count \<open>fdiv\<close>, whatever they round to. For
  an empty buffer the level is -60, which lies below the table and is mapped to its first
  entry. For a single sample, trimming leaves nothing and the level is that sample (the
  median). For \<open>n \<ge> 2\<close> samples the level is the sum, taken from 0 in ascending order, of
  the sorted samples from index \<open>n div 10\<close> up to, not including, index \<open>9 n div 10\<close>,
  divided by their number: the lowest \<open>n div 10\<close> and the highest \<open>n - 9 n div 10\<close> samples
  are discarded, and what is left is never empty. For 10 samples that is all but the
  lowest and the highest one, and for any positive multiple of 10 it is the trimmed mean
  of the specification, computed with the same operations.
\<close>

theorem calculateAverageVolume_trimmed_mean:
  "(volumeSamples = [] \<longrightarrow>
      calculateAverageVolume fadd fdiv fzero fminus60 volumeSamples = fminus60)
   \<and> calculateAverageVolume ladd ldiv (Finite 0) (Finite (-60)) [] = Finite (-60)
   \<and> (-60) < minDb (VOLUME_DURATION_MAP ! 0)
   \<and> level_mapping (calculateAverageVolume ladd ldiv (Finite 0) (Finite (-60)) [])
       = VOLUME_DURATION_MAP ! 0
   \<and> (length volumeSamples = 1 \<longrightarrow>
      slice (length volumeSamples div 10) (9 * length volumeSamples div 10) (sort volumeSamples) = []
      \<and> calculateAverageVolume fadd fdiv fzero fminus60 volumeSamples = volumeSamples ! 0)
   \<and> (2 \<le> length volumeSamples \<longrightarrow>
      (\<exists>low kept high.
         sort volumeSamples = low @ kept @ high
         \<and> length low = length volumeSamples div 10
         \<and> length high = length volumeSamples - 9 * length volumeSamples div 10
         \<and> kept \<noteq> []
         \<and> calculateAverageVolume fadd fdiv fzero fminus60 volumeSamples
             = fdiv (foldl fadd fzero kept) (length kept)))
   \<and> (length volumeSamples = 10 \<longrightarrow>
      calculateAverageVolume fadd fdiv fzero fminus60 volumeSamples
        = fdiv (foldl fadd fzero (butlast (tl (sort volumeSamples)))) 8)
   \<and> (volumeSamples \<noteq> [] \<and> length volumeSamples mod 10 = 0 \<longrightarrow>
      calculateAverageVolume fadd fdiv fzero fminus60 volumeSamples
        = spec_trimmed_mean fadd fdiv fzero volumeSamples)"
proof (intro conjI impI)
  assume e: "volumeSamples = []"
  show "calculateAverageVolume fadd fdiv fzero fminus60 volumeSamples = fminus60"
    using e by (simp add: calculateAverageVolume_def)
next
  show a: "calculateAverageVolume ladd ldiv (Finite 0) (Finite (-60)) [] = Finite (-60)"
    by (simp add: calculateAverageVolume_def)
  show "(-60) < minDb (VOLUME_DURATION_MAP ! 0)"
    by (simp add: VOLUME_DURATION_MAP_def)
  show "level_mapping (calculateAverageVolume ladd ldiv (Finite 0) (Finite (-60)) [])
       = VOLUME_DURATION_MAP ! 0"
    unfolding a by (simp add: level_mapping_def getVolumeDurationMapping_def mapping_loop_table)
next
  assume one: "length volumeSamples = 1"
  then obtain x where x: "volumeSamples = [x]"
    by (cases volumeSamples) auto
  show "slice (length volumeSamples div 10) (9 * length volumeSamples div 10)
          (sort volumeSamples) = []"
    using x by (simp add: slice_def)
  show "calculateAverageVolume fadd fdiv fzero fminus60 volumeSamples = volumeSamples ! 0"
    using x by (simp add: calculateAverageVolume_def slice_def)
next
  assume two: "2 \<le> length volumeSamples"
  let ?n = "length volumeSamples"
  let ?s = "sort volumeSamples"
  let ?kept = "slice (?n div 10) (9 * ?n div 10) ?s"
  have ne: "volumeSamples \<noteq> []" using two by auto
  have lt: "?n div 10 < 9 * ?n div 10" using two by (rule tenth_lt_nine_tenths)
  have le: "9 * ?n div 10 \<le> length ?s" by simp
  have len: "length ?kept = 9 * ?n div 10 - ?n div 10"
    using le by (rule length_slice)
  then have kept: "?kept \<noteq> []" using lt by auto
  have split: "?s = take (?n div 10) ?s @ ?kept @ drop (9 * ?n div 10) ?s"
    using lt le by (intro slice_split) simp_all
  have low: "length (take (?n div 10) ?s) = ?n div 10" by simp
  have high: "length (drop (9 * ?n div 10) ?s) = ?n - 9 * ?n div 10" by simp
  have avg: "calculateAverageVolume fadd fdiv fzero fminus60 volumeSamples
               = fdiv (foldl fadd fzero ?kept) (length ?kept)"
    using kept by (simp add: calculateAverageVolume_eq[OF ne] Let_def)
  show "\<exists>low kept high.
         sort volumeSamples = low @ kept @ high
         \<and> length low = length volumeSamples div 10
         \<and> length high = length volumeSamples - 9 * length volumeSamples div 10
         \<and> kept \<noteq> []
         \<and> calculateAverageVolume fadd fdiv fzero fminus60 volumeSamples
             = fdiv (foldl fadd fzero kept) (length kept)"
    using split low high kept avg by blast
next
  assume ten: "length volumeSamples = 10"
  let ?s = "sort volumeSamples"
  have ne: "volumeSamples \<noteq> []" using ten by auto
  have ls: "length ?s = 10" using ten by simp
  have "slice 1 9 ?s = take 8 (tl ?s)" by (simp add: slice_def drop_Suc)
  also have "\<dots> = butlast (tl ?s)" using ls by (simp add: butlast_conv_take)
  finally have k: "slice 1 9 ?s = butlast (tl ?s)" .
  have l: "length (butlast (tl ?s)) = 8" using ls by simp
  then have "butlast (tl ?s) \<noteq> []" by (metis length_0_conv zero_neq_numeral)
  then show "calculateAverageVolume fadd fdiv fzero fminus60 volumeSamples
        = fdiv (foldl fadd fzero (butlast (tl (sort volumeSamples)))) 8"
    using ten k l by (simp add: calculateAverageVolume_eq[OF ne] Let_def)
next
  assume h: "volumeSamples \<noteq> [] \<and> length volumeSamples mod 10 = 0"
  let ?n = "length volumeSamples"
  have pos: "0 < ?n" using h by simp
  have w: "9 * ?n div 10 - ?n div 10 = ?n - 2 * (?n div 10)"
    using h by (intro kept_of_multiple_of_ten) simp
  have "10 dvd ?n" using h by (simp add: mod_eq_0_iff_dvd)
  then have "10 \<le> ?n" using pos by (rule dvd_imp_le)
  then have lt: "?n div 10 < 9 * ?n div 10" by (intro tenth_lt_nine_tenths) simp
  have "length (slice (?n div 10) (9 * ?n div 10) (sort volumeSamples))
          = 9 * ?n div 10 - ?n div 10"
    by (intro length_slice) simp
  then have kept: "slice (?n div 10) (9 * ?n div 10) (sort volumeSamples) \<noteq> []"
    using lt by auto
  let ?kept = "slice (?n div 10) (9 * ?n div 10) (sort volumeSamples)"
  have ne: "volumeSamples \<noteq> []" using h by simp
  have avg: "calculateAverageVolume fadd fdiv fzero fminus60 volumeSamples
               = fdiv (foldl fadd fzero ?kept) (length ?kept)"
    using kept by (simp add: calculateAverageVolume_eq[OF ne] Let_def)
  have eq: "?kept = take (?n - 2 * (?n div 10)) (drop (?n div 10) (sort volumeSamples))"
    unfolding slice_def w ..
  have "spec_trimmed_mean fadd fdiv fzero volumeSamples
          = fdiv (foldl fadd fzero ?kept) (length ?kept)"
    unfolding eq by (simp add: spec_trimmed_mean_def Let_def)
  then show "calculateAverageVolume fadd fdiv fzero fminus60 volumeSamples
        = spec_trimmed_mean fadd fdiv fzero volumeSamples"
    using avg by simp
qed

theorem calculateAverageVolume_trimmed_mean_witness:
  "calculateAverageVolume exact_add exact_div (Finite 0) (Finite (-60)) [] = Finite (-60)
   \<and> calculateAverageVolume exact_add exact_div (Finite 0) (Finite (-60)) [Finite (-42)]
       = Finite (-42)
   \<and> calculateAverageVolume exact_add exact_div (Finite 0) (Finite (-60))
        [Finite (-10), Finite (-20), Finite (-30), Finite (-40), NegInfinity,
         Finite (-11), Finite (-12), Finite (-13), Finite (-14), Finite (-15)]
       = Finite (- (155 / 8))
   \<and> spec_trimmed_mean exact_add exact_div (Finite 0)
        [Finite (-10), Finite (-20), Finite (-30), Finite (-40), NegInfinity,
         Finite (-11), Finite (-12), Finite (-13), Finite (-14), Finite (-15)]
       = Finite (- (155 / 8))"
proof -
  let ?ten = "[Finite (-10), Finite (-20), Finite (-30), Finite (-40), NegInfinity,
               Finite (-11), Finite (-12), Finite (-13), Finite (-14), Finite (-15)]"
  note th = calculateAverageVolume_trimmed_mean
              [where fadd = exact_add and fdiv = exact_div and fzero = "Finite 0"
                 and ?fminus60.0 = "Finite (-60)"]
  have 1: "calculateAverageVolume exact_add exact_div (Finite 0) (Finite (-60)) [] = Finite (-60)"
    using th[where volumeSamples = "[]"] by simp
  have 2: "calculateAverageVolume exact_add exact_div (Finite 0) (Finite (-60)) [Finite (-42)]
             = Finite (-42)"
    using th[where volumeSamples = "[Finite (-42)]"] by simp
  have l: "length ?ten = 10" by simp
  have s: "exact_div (foldl exact_add (Finite 0) (butlast (tl (sort ?ten)))) 8
             = Finite (- (155 / 8))"
    by simp
  have 3: "calculateAverageVolume exact_add exact_div (Finite 0) (Finite (-60)) ?ten
             = Finite (- (155 / 8))"
    using th[where volumeSamples = ?ten] l s by simp
  have m: "?ten \<noteq> [] \<and> length ?ten mod 10 = 0" by simp
  have 4: "spec_trimmed_mean exact_add exact_div (Finite 0) ?ten = Finite (- (155 / 8))"
    using th[where volumeSamples = ?ten] m 3 by simp
  show ?thesis using 1 2 3 4 by simp
qed

theorem trimmed_mean_five_samples_counterexample:
  "calculateAverageVolume exact_add exact_div (Finite 0) (Finite (-60))
       [Finite (-10), Finite (-20), Finite (-30), Finite (-40), Finite (-50)] = Finite (-35)
   \<and> spec_trimmed_mean exact_add exact_div (Finite 0)
       [Finite (-10), Finite (-20), Finite (-30), Finite (-40), Finite (-50)] = Finite (-30)"
  by (simp add: calculateAverageVolume_def spec_trimmed_mean_def slice_def)

section \<open>The Levenshtein distance\<close>

lemma levenshtein_spec_Nil2 [simp]: "levenshtein_spec xs [] = length xs"
  by (cases xs) simp_all

lemma levenshtein_spec_sym: "levenshtein_spec xs ys = levenshtein_spec ys xs"
proof (induction xs ys rule: levenshtein_spec.induct)
  case (1 ys)
  show ?case by simp
next
  case (2 x xs)
  show ?case by simp
next
  case (3 x xs y ys)
  show ?case
  proof (cases "x = y")
    case True
    then show ?thesis using 3 by simp
  next
    case False
    then have "y \<noteq> x" by simp
    then show ?thesis using False 3 by (simp add: min.commute min.left_commute)
  qed
qed

text \<open>One character more or less on one side changes the distance by at most one.\<close>

lemma levenshtein_spec_step:
  "levenshtein_spec (x # xs) ys \<le> Suc (levenshtein_spec xs ys)
   \<and> levenshtein_spec xs ys \<le> Suc (levenshtein_spec (x # xs) ys)"
proof (induction "length xs + length ys" arbitrary: x xs ys rule: less_induct)
  case less
  show ?case
  proof (cases ys)
    case Nil
    then show ?thesis by simp
  next
    case (Cons y ys')
    have smaller: "length xs + length ys' < length xs + length ys"
      and smaller': "length ys' + length xs < length xs + length ys"
      using Cons by simp_all
    note P = less[OF smaller]
    note Q = less[OF smaller']
    have q1: "levenshtein_spec xs (y # ys') \<le> Suc (levenshtein_spec xs ys')"
      using Q[of y] by (simp add: levenshtein_spec_sym[of xs])
    have q2: "levenshtein_spec xs ys' \<le> Suc (levenshtein_spec xs (y # ys'))"
      using Q[of y] by (simp add: levenshtein_spec_sym[of xs])
    have p2: "levenshtein_spec xs ys' \<le> Suc (levenshtein_spec (x # xs) ys')"
      using P[of x] by simp
    show ?thesis
    proof (cases "x = y")
      case True
      then show ?thesis using Cons q1 q2 by simp
    next
      case False
      have a: "levenshtein_spec (x # xs) (y # ys') \<le> Suc (levenshtein_spec xs (y # ys'))"
        using False by simp
      have b: "levenshtein_spec xs (y # ys') \<le> Suc (levenshtein_spec (x # xs) (y # ys'))"
        using False q1 p2 by (simp add: min_def)
      show ?thesis using Cons a b by simp
    qed
  qed
qed

lemma levenshtein_spec_delete:
  "levenshtein_spec (x # xs) ys \<le> Suc (levenshtein_spec xs ys)"
  using levenshtein_spec_step[of x xs ys] by simp

lemma levenshtein_spec_insert:
  "levenshtein_spec xs (y # ys) \<le> Suc (levenshtein_spec xs ys)"
  using levenshtein_spec_delete[of y ys xs] by (simp add: levenshtein_spec_sym[of xs])

lemma levenshtein_spec_substitute:
  "levenshtein_spec (x # xs) (y # ys) \<le> Suc (levenshtein_spec xs ys)"
  by simp

text \<open>The distance is the least number of edits that turn one string into the other.\<close>

lemma edits_Nil_left: "edits [] ys (length ys)"
  by (induction ys) (auto intro: edits.intros)

lemma edits_Nil_right: "edits xs [] (length xs)"
  by (induction xs) (auto intro: edits.intros)

lemma edits_levenshtein_spec: "edits xs ys (levenshtein_spec xs ys)"
proof (induction xs ys rule: levenshtein_spec.induct)
  case (1 ys)
  show ?case using edits_Nil_left by simp
next
  case (2 x xs)
  show ?case using edits_Nil_right[of "x # xs"] by simp
next
  case (3 x xs y ys)
  show ?case
  proof (cases "x = y")
    case True
    then show ?thesis using 3 by (auto intro: edits_keep)
  next
    case False
    let ?a = "levenshtein_spec xs (y # ys)"
    let ?b = "levenshtein_spec (x # xs) ys"
    let ?c = "levenshtein_spec xs ys"
    have v: "levenshtein_spec (x # xs) (y # ys) = Suc (min (min ?a ?b) ?c)"
      using False by simp
    have "min (min ?a ?b) ?c = ?a \<or> min (min ?a ?b) ?c = ?b \<or> min (min ?a ?b) ?c = ?c"
      by (simp add: min_def)
    then consider "min (min ?a ?b) ?c = ?a" | "min (min ?a ?b) ?c = ?b"
      | "min (min ?a ?b) ?c = ?c"
      by blast
    then show ?thesis
    proof cases
      case 1
      have "edits (x # xs) (y # ys) (Suc ?a)" using 3(2)[OF False] by (rule edits_delete)
      then show ?thesis using v 1 by simp
    next
      case 2
      have "edits (x # xs) (y # ys) (Suc ?b)" using 3(3)[OF False] by (rule edits_insert)
      then show ?thesis using v 2 by simp
    next
      case 3
      have "edits (x # xs) (y # ys) (Suc ?c)" using "3.IH"(4)[OF False] by (rule edits_substitute)
      then show ?thesis using v 3 by simp
    qed
  qed
qed

lemma levenshtein_spec_le_edits: "edits xs ys n \<Longrightarrow> levenshtein_spec xs ys \<le> n"
proof (induction rule: edits.induct)
  case edits_Nil
  show ?case by simp
next
  case (edits_delete xs ys n x)
  then show ?case using levenshtein_spec_delete[of x xs ys] by simp
next
  case (edits_insert xs ys n y)
  then show ?case using levenshtein_spec_insert[of xs y ys] by simp
next
  case (edits_keep xs ys n x)
  then show ?case by simp
next
  case (edits_substitute xs ys n x y)
  then show ?case using levenshtein_spec_substitute[of x xs y ys] by simp
qed

text \<open>Edit scripts read backwards, so the distance of the reversed strings is the same.\<close>

lemma edits_snoc_delete: "edits xs ys n \<Longrightarrow> edits (xs @ [x]) ys (Suc n)"
  by (induction rule: edits.induct) (auto intro: edits.intros)

lemma edits_snoc_insert: "edits xs ys n \<Longrightarrow> edits xs (ys @ [y]) (Suc n)"
  by (induction rule: edits.induct) (auto intro: edits.intros)

lemma edits_snoc_keep: "edits xs ys n \<Longrightarrow> edits (xs @ [x]) (ys @ [x]) n"
  by (induction rule: edits.induct) (auto intro: edits.intros)

lemma edits_snoc_substitute: "edits xs ys n \<Longrightarrow> edits (xs @ [x]) (ys @ [y]) (Suc n)"
  by (induction rule: edits.induct) (auto intro: edits.intros)

lemma edits_rev: "edits xs ys n \<Longrightarrow> edits (rev xs) (rev ys) n"
proof (induction rule: edits.induct)
  case edits_Nil
  show ?case by (simp add: edits.edits_Nil)
next
  case (edits_delete xs ys n x)
  then show ?case by (simp add: edits_snoc_delete)
next
  case (edits_insert xs ys n y)
  then show ?case by (simp add: edits_snoc_insert)
next
  case (edits_keep xs ys n x)
  then show ?case by (simp add: edits_snoc_keep)
next
  case (edits_substitute xs ys n x y)
  then show ?case by (simp add: edits_snoc_substitute)
qed

lemma levenshtein_spec_rev: "levenshtein_spec (rev xs) (rev ys) = levenshtein_spec xs ys"
proof (rule antisym)
  show "levenshtein_spec (rev xs) (rev ys) \<le> levenshtein_spec xs ys"
    using edits_rev[OF edits_levenshtein_spec[of xs ys]] by (rule levenshtein_spec_le_edits)
  have "edits (rev (rev xs)) (rev (rev ys)) (levenshtein_spec (rev xs) (rev ys))"
    using edits_levenshtein_spec[of "rev xs" "rev ys"] by (rule edits_rev)
  then show "levenshtein_spec xs ys \<le> levenshtein_spec (rev xs) (rev ys)"
    using levenshtein_spec_le_edits by fastforce
qed

lemma levenshtein_spec_snoc:
  "levenshtein_spec (xs @ [x]) (ys @ [y]) =
     (if x = y then levenshtein_spec xs ys
      else 1 + min (min (levenshtein_spec xs (ys @ [y])) (levenshtein_spec (xs @ [x]) ys))
                   (levenshtein_spec xs ys))"
proof -
  have a: "levenshtein_spec (rev xs) (y # rev ys) = levenshtein_spec xs (ys @ [y])"
    using levenshtein_spec_rev[of xs "ys @ [y]"] by simp
  have b: "levenshtein_spec (x # rev xs) (rev ys) = levenshtein_spec (xs @ [x]) ys"
    using levenshtein_spec_rev[of "xs @ [x]" ys] by simp
  have "levenshtein_spec (xs @ [x]) (ys @ [y]) = levenshtein_spec (x # rev xs) (y # rev ys)"
    using levenshtein_spec_rev[of "xs @ [x]" "ys @ [y]"] by simp
  then show ?thesis by (simp add: a b levenshtein_spec_rev)
qed

section \<open>The table of levenshteinDistance\<close>

lemma set_cell_shape:
  assumes "dp_shape m n dp"
  shows "dp_shape m n (set_cell dp i j v)"
  unfolding dp_shape_def
proof (intro conjI allI impI)
  show "length (set_cell dp i j v) = Suc m"
    using assms by (simp add: dp_shape_def set_cell_def)
next
  fix a assume a: "a \<le> m"
  then have "a < length dp" using assms by (simp add: dp_shape_def)
  then have "set_cell dp i j v ! a = (if i = a then (dp ! i)[j := v] else dp ! a)"
    by (simp add: set_cell_def nth_list_update)
  then show "length (set_cell dp i j v ! a) = Suc n"
    using assms a by (simp add: dp_shape_def)
qed

lemma set_cell_nth:
  assumes "dp_shape m n dp" and "i \<le> m" and "a \<le> m"
  shows "set_cell dp i j v ! a ! b =
           (if a = i \<and> b = j \<and> j \<le> n then v else dp ! a ! b)"
proof (cases "a = i")
  case True
  have "i < length dp" using assms by (simp add: dp_shape_def)
  then have "set_cell dp i j v ! a = (dp ! i)[j := v]" using True by (simp add: set_cell_def)
  moreover have "length (dp ! i) = Suc n" using assms by (simp add: dp_shape_def)
  ultimately show ?thesis using True by (auto simp: nth_list_update list_update_beyond)
next
  case False
  then show ?thesis by (simp add: set_cell_def)
qed

lemma set_cell_other_row: "a \<noteq> i \<Longrightarrow> set_cell dp i j v ! a = dp ! a"
  by (simp add: set_cell_def)

lemma fold_upt_Suc: "a \<le> k \<Longrightarrow> fold f [a..<Suc k] s = f k (fold f [a..<k] s)"
  by simp

lemma prefix_distance_0_left [simp]: "j \<le> length str2 \<Longrightarrow> prefix_distance str1 str2 0 j = j"
  by (simp add: prefix_distance_def)

lemma prefix_distance_0_right [simp]: "i \<le> length str1 \<Longrightarrow> prefix_distance str1 str2 i 0 = i"
  by (simp add: prefix_distance_def)

lemma prefix_distance_Suc:
  assumes "i < length str1" and "j < length str2"
  shows "prefix_distance str1 str2 (Suc i) (Suc j) =
           (if str1 ! i = str2 ! j then prefix_distance str1 str2 i j
            else 1 + min (min (prefix_distance str1 str2 i (Suc j))
                              (prefix_distance str1 str2 (Suc i) j))
                         (prefix_distance str1 str2 i j))"
  using assms
  by (simp add: prefix_distance_def take_Suc_conv_app_nth levenshtein_spec_snoc)

text \<open>First loop: \<open>dp[i][0] = i\<close>.\<close>

lemma first_column_loop:
  assumes "dp_shape m n dp" and "k \<le> Suc m"
  shows "dp_shape m n (fold (\<lambda>i dp. set_cell dp i 0 i) [0..<k] dp)
         \<and> (\<forall>i < k. fold (\<lambda>i dp. set_cell dp i 0 i) [0..<k] dp ! i ! 0 = i)"
  using assms(2)
proof (induction k)
  case 0
  show ?case using assms(1) by simp
next
  case (Suc k)
  let ?dp = "fold (\<lambda>i dp. set_cell dp i 0 i) [0..<k] dp"
  have IH: "dp_shape m n ?dp" "\<forall>i < k. ?dp ! i ! 0 = i" using Suc by simp_all
  have k: "k \<le> m" using Suc.prems by simp
  have step: "fold (\<lambda>i dp. set_cell dp i 0 i) [0..<Suc k] dp = set_cell ?dp k 0 k"
    by simp
  show ?case unfolding step
  proof (intro conjI allI impI)
    show "dp_shape m n (set_cell ?dp k 0 k)" using IH(1) by (rule set_cell_shape)
  next
    fix i assume "i < Suc k"
    then have "i \<le> m" using k by simp
    show "set_cell ?dp k 0 k ! i ! 0 = i"
      using IH(2) \<open>i < Suc k\<close>
      by (auto simp: set_cell_nth[OF IH(1) k \<open>i \<le> m\<close>] less_Suc_eq)
  qed
qed

text \<open>Second loop: \<open>dp[0][j] = j\<close>; the other rows are not touched.\<close>

lemma first_row_loop:
  assumes "dp_shape m n dp" and "k \<le> Suc n"
  shows "dp_shape m n (fold (\<lambda>j dp. set_cell dp 0 j j) [0..<k] dp)
         \<and> (\<forall>j < k. fold (\<lambda>j dp. set_cell dp 0 j j) [0..<k] dp ! 0 ! j = j)
         \<and> (\<forall>i. 0 < i \<longrightarrow> fold (\<lambda>j dp. set_cell dp 0 j j) [0..<k] dp ! i = dp ! i)"
  using assms(2)
proof (induction k)
  case 0
  show ?case using assms(1) by simp
next
  case (Suc k)
  let ?dp = "fold (\<lambda>j dp. set_cell dp 0 j j) [0..<k] dp"
  have IH: "dp_shape m n ?dp" "\<forall>j < k. ?dp ! 0 ! j = j" "\<forall>i. 0 < i \<longrightarrow> ?dp ! i = dp ! i"
    using Suc by simp_all
  have k: "k \<le> n" using Suc.prems by simp
  have step: "fold (\<lambda>j dp. set_cell dp 0 j j) [0..<Suc k] dp = set_cell ?dp 0 k k"
    by simp
  show ?case unfolding step
  proof (intro conjI allI impI)
    show "dp_shape m n (set_cell ?dp 0 k k)" using IH(1) by (rule set_cell_shape)
  next
    fix j assume "j < Suc k"
    then show "set_cell ?dp 0 k k ! 0 ! j = j"
      using IH(2) k by (auto simp: set_cell_nth[OF IH(1)] less_Suc_eq)
  next
    fix i :: nat assume "0 < i"
    then show "set_cell ?dp 0 k k ! i = dp ! i"
      using IH(3) by (simp add: set_cell_other_row)
  qed
qed

text \<open>One cell of the third loop.\<close>

lemma lev_cell_shape: "dp_shape m n dp \<Longrightarrow> dp_shape m n (lev_cell str1 str2 i j dp)"
  by (simp add: lev_cell_def set_cell_shape)

lemma lev_cell_other_row: "a \<noteq> i \<Longrightarrow> lev_cell str1 str2 i j dp ! a = dp ! a"
  by (simp add: lev_cell_def set_cell_other_row)

lemma lev_cell_nth:
  assumes "dp_shape (length str1) (length str2) dp"
    and "i < length str1" and "j < length str2"
    and "dp ! i ! j = prefix_distance str1 str2 i j"
    and "dp ! i ! Suc j = prefix_distance str1 str2 i (Suc j)"
    and "dp ! Suc i ! j = prefix_distance str1 str2 (Suc i) j"
  shows "lev_cell str1 str2 (Suc i) (Suc j) dp ! Suc i ! b =
           (if b = Suc j then prefix_distance str1 str2 (Suc i) (Suc j) else dp ! Suc i ! b)"
proof -
  have i: "Suc i \<le> length str1" and j: "Suc j \<le> length str2" using assms by simp_all
  show ?thesis
    using assms(4-6) j
    by (simp add: lev_cell_def set_cell_nth[OF assms(1) i i]
        prefix_distance_Suc[OF assms(2,3)])
qed

text \<open>The inner loop fills row \<open>i + 1\<close> from the finished row \<open>i\<close>.\<close>

lemma inner_loop:
  assumes "dp_shape (length str1) (length str2) dp"
    and "i < length str1"
    and "\<forall>b \<le> length str2. dp ! i ! b = prefix_distance str1 str2 i b"
    and "dp ! Suc i ! 0 = Suc i"
    and "k \<le> length str2"
  shows "dp_shape (length str1) (length str2)
           (fold (\<lambda>j dp. lev_cell str1 str2 (Suc i) j dp) [1..<Suc k] dp)
         \<and> (\<forall>b \<le> k. fold (\<lambda>j dp. lev_cell str1 str2 (Suc i) j dp) [1..<Suc k] dp ! Suc i ! b
                     = prefix_distance str1 str2 (Suc i) b)
         \<and> (\<forall>a. a \<noteq> Suc i \<longrightarrow>
               fold (\<lambda>j dp. lev_cell str1 str2 (Suc i) j dp) [1..<Suc k] dp ! a = dp ! a)"
  using assms(5)
proof (induction k)
  case 0
  show ?case using assms(1,2,4) by simp
next
  case (Suc k)
  let ?f = "\<lambda>j dp. lev_cell str1 str2 (Suc i) j dp"
  let ?dp = "fold ?f [1..<Suc k] dp"
  have IH: "dp_shape (length str1) (length str2) ?dp"
    "\<forall>b \<le> k. ?dp ! Suc i ! b = prefix_distance str1 str2 (Suc i) b"
    "\<forall>a. a \<noteq> Suc i \<longrightarrow> ?dp ! a = dp ! a"
    using Suc by (simp_all del: upt_Suc)
  have k: "k < length str2" using Suc.prems by simp
  have "i \<noteq> Suc i" by simp
  then have row: "?dp ! i = dp ! i" using IH(3) by blast
  have "[1..<Suc (Suc k)] = [1..<Suc k] @ [Suc k]" by simp
  then have step: "fold ?f [1..<Suc (Suc k)] dp = lev_cell str1 str2 (Suc i) (Suc k) ?dp"
    by (simp only: fold_append fold_simps comp_apply id_apply)
  have c1: "?dp ! i ! k = prefix_distance str1 str2 i k"
    and c2: "?dp ! i ! Suc k = prefix_distance str1 str2 i (Suc k)"
    unfolding row using assms(3) k by simp_all
  have c3: "?dp ! Suc i ! k = prefix_distance str1 str2 (Suc i) k" using IH(2) by blast
  note cell = lev_cell_nth[OF IH(1) assms(2) k c1 c2 c3]
  show ?case unfolding step
  proof (intro conjI allI impI)
    show "dp_shape (length str1) (length str2) (lev_cell str1 str2 (Suc i) (Suc k) ?dp)"
      using IH(1) by (rule lev_cell_shape)
  next
    fix b assume "b \<le> Suc k"
    then have "b = Suc k \<or> b \<le> k" by auto
    then show "lev_cell str1 str2 (Suc i) (Suc k) ?dp ! Suc i ! b
                 = prefix_distance str1 str2 (Suc i) b"
      unfolding cell using IH(2) by auto
  next
    fix a assume "a \<noteq> Suc i"
    then have "lev_cell str1 str2 (Suc i) (Suc k) ?dp ! a = ?dp ! a"
      by (rule lev_cell_other_row)
    also have "?dp ! a = dp ! a" using IH(3) \<open>a \<noteq> Suc i\<close> by blast
    finally show "lev_cell str1 str2 (Suc i) (Suc k) ?dp ! a = dp ! a" .
  qed
qed

text \<open>The outer loop finishes the rows one after the other.\<close>

lemma outer_loop:
  assumes "dp_shape (length str1) (length str2) dp"
    and "\<forall>b \<le> length str2. dp ! 0 ! b = b"
    and "\<forall>a \<le> length str1. dp ! a ! 0 = a"
    and "k \<le> length str1"
  shows "dp_shape (length str1) (length str2)
           (fold (\<lambda>i dp. fold (\<lambda>j dp. lev_cell str1 str2 i j dp) [1..<length str2 + 1] dp)
              [1..<Suc k] dp)
         \<and> (\<forall>a \<le> k. \<forall>b \<le> length str2.
               fold (\<lambda>i dp. fold (\<lambda>j dp. lev_cell str1 str2 i j dp) [1..<length str2 + 1] dp)
                 [1..<Suc k] dp ! a ! b = prefix_distance str1 str2 a b)
         \<and> (\<forall>a. k < a \<longrightarrow>
               fold (\<lambda>i dp. fold (\<lambda>j dp. lev_cell str1 str2 i j dp) [1..<length str2 + 1] dp)
                 [1..<Suc k] dp ! a = dp ! a)"
  using assms(4)
proof (induction k)
  case 0
  show ?case using assms(1,2) by simp
next
  case (Suc k)
  let ?g = "\<lambda>i dp. fold (\<lambda>j dp. lev_cell str1 str2 i j dp) [1..<length str2 + 1] dp"
  let ?dp = "fold ?g [1..<Suc k] dp"
  have IH: "dp_shape (length str1) (length str2) ?dp"
    "\<forall>a \<le> k. \<forall>b \<le> length str2. ?dp ! a ! b = prefix_distance str1 str2 a b"
    "\<forall>a. k < a \<longrightarrow> ?dp ! a = dp ! a"
    using Suc by (simp_all del: upt_Suc)
  have k: "k < length str1" using Suc.prems by simp
  have "[1..<Suc (Suc k)] = [1..<Suc k] @ [Suc k]" by simp
  then have step: "fold ?g [1..<Suc (Suc k)] dp
                = fold (\<lambda>j dp. lev_cell str1 str2 (Suc k) j dp) [1..<Suc (length str2)] ?dp"
    by (simp only: fold_append fold_simps comp_apply id_apply Suc_eq_plus1)
  have rowk: "\<forall>b \<le> length str2. ?dp ! k ! b = prefix_distance str1 str2 k b"
    using IH(2) by blast
  have "?dp ! Suc k = dp ! Suc k" using IH(3) by blast
  then have col0: "?dp ! Suc k ! 0 = Suc k" using assms(3) k by simp
  note inner = inner_loop[OF IH(1) k rowk col0 order_refl]
  show ?case unfolding step
  proof (intro conjI allI impI)
    show "dp_shape (length str1) (length str2)
            (fold (\<lambda>j dp. lev_cell str1 str2 (Suc k) j dp) [1..<Suc (length str2)] ?dp)"
      using inner by blast
  next
    fix a b assume ab: "a \<le> Suc k" "b \<le> length str2"
    show "fold (\<lambda>j dp. lev_cell str1 str2 (Suc k) j dp) [1..<Suc (length str2)] ?dp ! a ! b
            = prefix_distance str1 str2 a b"
    proof (cases "a = Suc k")
      case True
      then show ?thesis using inner ab(2) by blast
    next
      case False
      then have "a \<le> k" using ab(1) by simp
      moreover have "fold (\<lambda>j dp. lev_cell str1 str2 (Suc k) j dp) [1..<Suc (length str2)] ?dp ! a
                       = ?dp ! a"
        using inner False by blast
      ultimately show ?thesis using IH(2) ab(2) by (simp del: upt_Suc)
    qed
  next
    fix a assume "Suc k < a"
    then have "a \<noteq> Suc k" "k < a" by simp_all
    then show "fold (\<lambda>j dp. lev_cell str1 str2 (Suc k) j dp) [1..<Suc (length str2)] ?dp ! a
                 = dp ! a"
      using inner IH(3) by (simp del: upt_Suc)
  qed
qed

text \<open>The function computes the Levenshtein distance of the specification.\<close>

lemma levenshteinDistance_correct: "levenshteinDistance str1 str2 = levenshtein_spec str1 str2"
proof -
  let ?m = "length str1" and ?n = "length str2"
  let ?dp0 = "replicate (?m + 1) (replicate (?n + 1) (0::nat))"
  let ?dp1 = "fold (\<lambda>i dp. set_cell dp i 0 i) [0..<?m + 1] ?dp0"
  let ?dp2 = "fold (\<lambda>j dp. set_cell dp 0 j j) [0..<?n + 1] ?dp1"
  let ?dp3 = "fold (\<lambda>i dp. fold (\<lambda>j dp. lev_cell str1 str2 i j dp) [1..<?n + 1] dp)
                [1..<?m + 1] ?dp2"
  have s0: "dp_shape ?m ?n ?dp0"
    by (simp add: dp_shape_def nth_replicate del: replicate_Suc replicate.simps
        flip: replicate_Suc)
  have l1: "dp_shape ?m ?n ?dp1 \<and> (\<forall>i < Suc ?m. ?dp1 ! i ! 0 = i)"
    using first_column_loop[OF s0, of "Suc ?m"] by simp
  then have s1: "dp_shape ?m ?n ?dp1" and c1: "\<forall>i \<le> ?m. ?dp1 ! i ! 0 = i"
    by (simp_all add: less_Suc_eq_le)
  have l2: "dp_shape ?m ?n ?dp2 \<and> (\<forall>j < Suc ?n. ?dp2 ! 0 ! j = j)
              \<and> (\<forall>i. 0 < i \<longrightarrow> ?dp2 ! i = ?dp1 ! i)"
    using first_row_loop[OF s1, of "Suc ?n"] by simp
  then have s2: "dp_shape ?m ?n ?dp2" and r2: "\<forall>b \<le> ?n. ?dp2 ! 0 ! b = b"
    and o2: "\<forall>i. 0 < i \<longrightarrow> ?dp2 ! i = ?dp1 ! i"
    by (simp_all add: less_Suc_eq_le)
  have c2: "\<forall>a \<le> ?m. ?dp2 ! a ! 0 = a"
  proof (intro allI impI)
    fix a assume a: "a \<le> ?m"
    show "?dp2 ! a ! 0 = a"
    proof (cases "a = 0")
      case True
      then show ?thesis using r2 by simp
    next
      case False
      then show ?thesis using o2 c1 a by simp
    qed
  qed
  have "\<forall>a \<le> ?m. \<forall>b \<le> ?n. ?dp3 ! a ! b = prefix_distance str1 str2 a b"
    using outer_loop[OF s2 r2 c2 order_refl] by simp
  then have "?dp3 ! ?m ! ?n = prefix_distance str1 str2 ?m ?n" by simp
  then show ?thesis by (simp add: levenshteinDistance_def Let_def prefix_distance_def)
qed

section \<open>Phrase verification\<close>

lemma normalized_phrase: "trim (toLowerCase UNLOCK_PHRASE) = ''i'm a loser''"
  by code_simp

lemma validatePhrase_accepts:
  "validatePhrase fadd fdiv transcript volumeSamples \<noteq> None \<longleftrightarrow>
     sublist (trim (toLowerCase UNLOCK_PHRASE)) (trim (toLowerCase transcript))
     \<or> levenshtein_spec (trim (toLowerCase transcript)) (trim (toLowerCase UNLOCK_PHRASE)) \<le> 3"
  by (simp add: validatePhrase_def Let_def includes_str_def levenshteinDistance_correct)

text \<open>
  C4, as the code has it. The phrase that \<open>validatePhrase\<close> compares with is the constant
  \<open>UNLOCK_PHRASE\<close> of the content script, \<open>i'm a loser\<close>; the phrase stored in the settings
  is not an input of the function. \<open>validatePhrase\<close> accepts a transcript exactly when,
  after both the transcript and this constant are lowercased and trimmed, the transcript
  contains the phrase as a substring or their Levenshtein distance is at most 3, where
  the distance that \<open>levenshteinDistance\<close> computes is the least number of single-character
  insertions, deletions and substitutions. A transcript at distance exactly 3 is
  accepted; one at distance exactly 4 is rejected when it does not contain the phrase.
  This holds whatever the buffer of levels holds and whatever its sums round to.
\<close>

theorem validatePhrase_accepts_iff:
  "(validatePhrase fadd fdiv transcript volumeSamples \<noteq> None \<longleftrightarrow>
      sublist (trim (toLowerCase UNLOCK_PHRASE)) (trim (toLowerCase transcript))
      \<or> levenshtein_spec (trim (toLowerCase transcript)) (trim (toLowerCase UNLOCK_PHRASE)) \<le> 3)
   \<and> (levenshtein_spec (trim (toLowerCase transcript)) (trim (toLowerCase UNLOCK_PHRASE)) = 3
        \<longrightarrow> validatePhrase fadd fdiv transcript volumeSamples \<noteq> None)
   \<and> (levenshtein_spec (trim (toLowerCase transcript)) (trim (toLowerCase UNLOCK_PHRASE)) = 4
        \<and> \<not> sublist (trim (toLowerCase UNLOCK_PHRASE)) (trim (toLowerCase transcript))
        \<longrightarrow> validatePhrase fadd fdiv transcript volumeSamples = None)
   \<and> levenshteinDistance str1 str2 = levenshtein_spec str1 str2
   \<and> edits str1 str2 (levenshtein_spec str1 str2)
   \<and> (\<forall>k. edits str1 str2 k \<longrightarrow> levenshtein_spec str1 str2 \<le> k)"
proof (intro conjI impI allI)
  show "validatePhrase fadd fdiv transcript volumeSamples \<noteq> None \<longleftrightarrow>
      sublist (trim (toLowerCase UNLOCK_PHRASE)) (trim (toLowerCase transcript))
      \<or> levenshtein_spec (trim (toLowerCase transcript)) (trim (toLowerCase UNLOCK_PHRASE)) \<le> 3"
    by (rule validatePhrase_accepts)
next
  assume "levenshtein_spec (trim (toLowerCase transcript)) (trim (toLowerCase UNLOCK_PHRASE)) = 3"
  then show "validatePhrase fadd fdiv transcript volumeSamples \<noteq> None"
    unfolding validatePhrase_accepts by simp
next
  assume "levenshtein_spec (trim (toLowerCase transcript)) (trim (toLowerCase UNLOCK_PHRASE)) = 4
        \<and> \<not> sublist (trim (toLowerCase UNLOCK_PHRASE)) (trim (toLowerCase transcript))"
  then have "\<not> (validatePhrase fadd fdiv transcript volumeSamples \<noteq> None)"
    unfolding validatePhrase_accepts by simp
  then show "validatePhrase fadd fdiv transcript volumeSamples = None" by simp
next
  show "levenshteinDistance str1 str2 = levenshtein_spec str1 str2"
    by (rule levenshteinDistance_correct)
next
  show "edits str1 str2 (levenshtein_spec str1 str2)" by (rule edits_levenshtein_spec)
next
  fix k assume "edits str1 str2 k"
  then show "levenshtein_spec str1 str2 \<le> k" by (rule levenshtein_spec_le_edits)
qed

theorem validatePhrase_accepts_iff_witness:
  "validatePhrase exact_add exact_div ''Xxx a LOSER '' [] \<noteq> None
   \<and> validatePhrase exact_add exact_div (CHR 0xA0 # ''xxx a loser'') [NegInfinity] \<noteq> None
   \<and> validatePhrase exact_add exact_div ''xxxxa loser'' [] = None
   \<and> levenshteinDistance ''xxx a loser'' ''i'm a loser'' = 3
   \<and> levenshteinDistance ''xxxxa loser'' ''i'm a loser'' = 4"
proof -
  have d3: "levenshteinDistance (trim (toLowerCase ''Xxx a LOSER ''))
              (trim (toLowerCase UNLOCK_PHRASE)) = 3"
    by code_simp
  have n3: "levenshteinDistance (trim (toLowerCase (CHR 0xA0 # ''xxx a loser'')))
              (trim (toLowerCase UNLOCK_PHRASE)) = 3"
    by code_simp
  have d4: "levenshteinDistance (trim (toLowerCase ''xxxxa loser''))
              (trim (toLowerCase UNLOCK_PHRASE)) = 4"
    by code_simp
  have ns: "\<not> sublist (trim (toLowerCase UNLOCK_PHRASE)) (trim (toLowerCase ''xxxxa loser''))"
    by code_simp
  have e3: "levenshteinDistance ''xxx a loser'' ''i'm a loser'' = 3" by code_simp
  have e4: "levenshteinDistance ''xxxxa loser'' ''i'm a loser'' = 4" by code_simp
  have 1: "validatePhrase exact_add exact_div ''Xxx a LOSER '' [] \<noteq> None"
    using validatePhrase_accepts_iff
            [where fadd = exact_add and fdiv = exact_div and transcript = "''Xxx a LOSER ''"
               and volumeSamples = "[]"] d3
    by (simp add: levenshteinDistance_correct)
  have 2: "validatePhrase exact_add exact_div (CHR 0xA0 # ''xxx a loser'') [NegInfinity] \<noteq> None"
    using validatePhrase_accepts_iff
            [where fadd = exact_add and fdiv = exact_div
               and transcript = "CHR 0xA0 # ''xxx a loser''" and volumeSamples = "[NegInfinity]"]
          n3
    by (simp add: levenshteinDistance_correct)
  have 3: "validatePhrase exact_add exact_div ''xxxxa loser'' [] = None"
    using validatePhrase_accepts_iff
            [where fadd = exact_add and fdiv = exact_div and transcript = "''xxxxa loser''"
               and volumeSamples = "[]"] d4 ns
    by (simp add: levenshteinDistance_correct)
  show ?thesis using 1 2 3 e3 e4 by simp
qed

theorem distance_four_accepted_counterexample:
  "levenshteinDistance (trim (toLowerCase ''i'm a loser now'')) (trim (toLowerCase UNLOCK_PHRASE))
     = 4
   \<and> validatePhrase exact_add exact_div ''i'm a loser now'' [] = Some 30"
  by code_simp

end
